theory Spec2Isabelle
  imports Main "HOL-Library.Word"
begin

unbundle bit_operations_syntax

section \<open>PPP over serial: the framer of pppos.c\<close>

text \<open>
  The theory embeds \<^verbatim>\<open>src/netif/ppp/pppos.c\<close> of lwIP. The build that is modelled has
  \<^verbatim>\<open>LINK_STATS\<close>, \<^verbatim>\<open>LWIP_SNMP\<close> and \<^verbatim>\<open>VJ_SUPPORT\<close> switched on and
  \<^verbatim>\<open>PPP_INPROC_MULTITHREADED\<close>, \<^verbatim>\<open>IP_FORWARD\<close> and \<^verbatim>\<open>LWIP_IPV6_FORWARD\<close> switched off.
  Both variants of the \<^verbatim>\<open>PPP_FCS\<close> macro are defined; the framers use the table variant.
\<close>

subsection \<open>Machine types\<close>

type_synonym u_char = "8 word"
type_synonym u_short = "16 word"
type_synonym u_int = "32 word"

text \<open>A pointer to a pbuf is an address; address 0 is the null pointer.\<close>

type_synonym ptr = nat

abbreviation (input) NULL :: ptr where
  "NULL \<equiv> 0"

subsection \<open>Constants\<close>

definition PPP_FLAG :: u_char where "PPP_FLAG = 0x7e"
definition PPP_ESCAPE :: u_char where "PPP_ESCAPE = 0x7d"
definition PPP_TRANS :: u_char where "PPP_TRANS = 0x20"
definition PPP_ALLSTATIONS :: u_char where "PPP_ALLSTATIONS = 0xff"
definition PPP_UI :: u_char where "PPP_UI = 0x03"
definition PPP_INITFCS :: u_int where "PPP_INITFCS = 0xffff"
definition PPP_GOODFCS :: u_int where "PPP_GOODFCS = 0xf0b8"
definition PPP_IP :: u_short where "PPP_IP = 0x21"
definition PPP_VJC_COMP :: u_short where "PPP_VJC_COMP = 0x2d"
definition PPP_VJC_UNCOMP :: u_short where "PPP_VJC_UNCOMP = 0x2f"

text \<open>
  Modelled from the spec: \<^verbatim>\<open>PBUF_POOL_BUFSIZE\<close> and \<^verbatim>\<open>PPP_MAXIDLEFLAG\<close> are
  configuration macros of headers that are not among the sources (the spec calls the
  second one configurable). They are parameters of the model.
\<close>

record opts =
  PBUF_POOL_BUFSIZE :: nat
  PPP_MAXIDLEFLAG :: u_int

subsection \<open>The frame check sequence\<close>

definition fcstab :: "u_short list" where
  "fcstab = [
    0x0000, 0x1189, 0x2312, 0x329b, 0x4624, 0x57ad, 0x6536, 0x74bf,
    0x8c48, 0x9dc1, 0xaf5a, 0xbed3, 0xca6c, 0xdbe5, 0xe97e, 0xf8f7,
    0x1081, 0x0108, 0x3393, 0x221a, 0x56a5, 0x472c, 0x75b7, 0x643e,
    0x9cc9, 0x8d40, 0xbfdb, 0xae52, 0xdaed, 0xcb64, 0xf9ff, 0xe876,
    0x2102, 0x308b, 0x0210, 0x1399, 0x6726, 0x76af, 0x4434, 0x55bd,
    0xad4a, 0xbcc3, 0x8e58, 0x9fd1, 0xeb6e, 0xfae7, 0xc87c, 0xd9f5,
    0x3183, 0x200a, 0x1291, 0x0318, 0x77a7, 0x662e, 0x54b5, 0x453c,
    0xbdcb, 0xac42, 0x9ed9, 0x8f50, 0xfbef, 0xea66, 0xd8fd, 0xc974,
    0x4204, 0x538d, 0x6116, 0x709f, 0x0420, 0x15a9, 0x2732, 0x36bb,
    0xce4c, 0xdfc5, 0xed5e, 0xfcd7, 0x8868, 0x99e1, 0xab7a, 0xbaf3,
    0x5285, 0x430c, 0x7197, 0x601e, 0x14a1, 0x0528, 0x37b3, 0x263a,
    0xdecd, 0xcf44, 0xfddf, 0xec56, 0x98e9, 0x8960, 0xbbfb, 0xaa72,
    0x6306, 0x728f, 0x4014, 0x519d, 0x2522, 0x34ab, 0x0630, 0x17b9,
    0xef4e, 0xfec7, 0xcc5c, 0xddd5, 0xa96a, 0xb8e3, 0x8a78, 0x9bf1,
    0x7387, 0x620e, 0x5095, 0x411c, 0x35a3, 0x242a, 0x16b1, 0x0738,
    0xffcf, 0xee46, 0xdcdd, 0xcd54, 0xb9eb, 0xa862, 0x9af9, 0x8b70,
    0x8408, 0x9581, 0xa71a, 0xb693, 0xc22c, 0xd3a5, 0xe13e, 0xf0b7,
    0x0840, 0x19c9, 0x2b52, 0x3adb, 0x4e64, 0x5fed, 0x6d76, 0x7cff,
    0x9489, 0x8500, 0xb79b, 0xa612, 0xd2ad, 0xc324, 0xf1bf, 0xe036,
    0x18c1, 0x0948, 0x3bd3, 0x2a5a, 0x5ee5, 0x4f6c, 0x7df7, 0x6c7e,
    0xa50a, 0xb483, 0x8618, 0x9791, 0xe32e, 0xf2a7, 0xc03c, 0xd1b5,
    0x2942, 0x38cb, 0x0a50, 0x1bd9, 0x6f66, 0x7eef, 0x4c74, 0x5dfd,
    0xb58b, 0xa402, 0x9699, 0x8710, 0xf3af, 0xe226, 0xd0bd, 0xc134,
    0x39c3, 0x284a, 0x1ad1, 0x0b58, 0x7fe7, 0x6e6e, 0x5cf5, 0x4d7c,
    0xc60c, 0xd785, 0xe51e, 0xf497, 0x8028, 0x91a1, 0xa33a, 0xb2b3,
    0x4a44, 0x5bcd, 0x6956, 0x78df, 0x0c60, 0x1de9, 0x2f72, 0x3efb,
    0xd68d, 0xc704, 0xf59f, 0xe416, 0x90a9, 0x8120, 0xb3bb, 0xa232,
    0x5ac5, 0x4b4c, 0x79d7, 0x685e, 0x1ce1, 0x0d68, 0x3ff3, 0x2e7a,
    0xe70e, 0xf687, 0xc41c, 0xd595, 0xa12a, 0xb0a3, 0x8238, 0x93b1,
    0x6b46, 0x7acf, 0x4854, 0x59dd, 0x2d62, 0x3ceb, 0x0e70, 0x1ff9,
    0xf78f, 0xe606, 0xd49d, 0xc514, 0xb1ab, 0xa022, 0x92b9, 0x8330,
    0x7bc7, 0x6a4e, 0x58d5, 0x495c, 0x3de3, 0x2c6a, 0x1ef1, 0x0f78
  ]"

text \<open>\<^verbatim>\<open>PPP_FCS(fcs, c)\<close> with \<^verbatim>\<open>PPP_FCS_    0x0000, 0x1189, 0x2312, 0x329b, 0x4624, 0x57ad, 0x6536, 0x74bf,
    0x8c48, 0x9dc1, 0xaf5a, 0xbed3, 0xca6c, 0xdbe5, 0xe97e, 0xf8f7,
    0x1081, 0x0108, 0x3393, 0x221a, 0x56a5, 0x472c, 0x75b7, 0x643e,
    0x9cc9, 0x8d40, 0xbfdb, 0xae52, 0xdaed, 0xcb64, 0xf9ff, 0xe876,
    0x2102, 0x308b, 0x0210, 0x1399, 0x6726, 0x76af, 0x4434, 0x55bd,
    0xad4a, 0xbcc3, 0x8e58, 0x9fd1, 0xeb6e, 0xfae7, 0xc87c, 0xd9f5,
    0x3183, 0x200a, 0x1291, 0x0318, 0x77a7, 0x662e, 0x54b5, 0x453c,
    0xbdcb, 0xac42, 0x9ed9, 0x8f50, 0xfbef, 0xea66, 0xd8fd, 0xc974,
    0x4204, 0x538d, 0x6116, 0x709f, 0x0420, 0x15a9, 0x2732, 0x36bb,
    0xce4c, 0xdfc5, 0xed5e, 0xfcd7, 0x8868, 0x99e1, 0xab7a, 0xbaf3,
    0x5285, 0x430c, 0x7197, 0x601e, 0x14a1, 0x0528, 0x37b3, 0x263a,
    0xdecd, 0xcf44, 0xfddf, 0xec56, 0x98e9, 0x8960, 0xbbfb, 0xaa72,
    0x6306, 0x728f, 0x4014, 0x519d, 0x2522, 0x34ab, 0x0630, 0x17b9,
    0xef4e, 0xfec7, 0xcc5c, 0xddd5, 0xa96a, 0xb8e3, 0x8a78, 0x9bf1,
    0x7387, 0x620e, 0x5095, 0x411c, 0x35a3, 0x242a, 0x16b1, 0x0738,
    0xffcf, 0xee46, 0xdcdd, 0xcd54, 0xb9eb, 0xa862, 0x9af9, 0x8b70,
    0x8408, 0x9581, 0xa71a, 0xb693, 0xc22c, 0xd3a5, 0xe13e, 0xf0b7,
    0x0840, 0x19c9, 0x2b52, 0x3adb, 0x4e64, 0x5fed, 0x6d76, 0x7cff,
    0x9489, 0x8500, 0xb79b, 0xa612, 0xd2ad, 0xc324, 0xf1bf, 0xe036,
    0x18c1, 0x0948, 0x3bd3, 0x2a5a, 0x5ee5, 0x4f6c, 0x7df7, 0x6c7e,
    0xa50a, 0xb483, 0x8618, 0x9791, 0xe32e, 0xf2a7, 0xc03c, 0xd1b5,
    0x2942, 0x38cb, 0x0a50, 0x1bd9, 0x6f66, 0x7eef, 0x4c74, 0x5dfd,
    0xb58b, 0xa402, 0x9699, 0x8710, 0xf3af, 0xe226, 0xd0bd, 0xc134,
    0x39c3, 0x284a, 0x1ad1, 0x0b58, 0x7fe7, 0x6e6e, 0x5cf5, 0x4d7c,
    0xc60c, 0xd785, 0xe51e, 0xf497, 0x8028, 0x91a1, 0xa33a, 0xb2b3,
    0x4a44, 0x5bcd, 0x6956, 0x78df, 0x0c60, 0x1de9, 0x2f72, 0x3efb,
    0xd68d, 0xc704, 0xf59f, 0xe416, 0x90a9, 0x8120, 0xb3bb, 0xa232,
    0x5ac5, 0x4b4c, 0x79d7, 0x685e, 0x1ce1, 0x0d68, 0x3ff3, 0x2e7a,
    0xe70e, 0xf687, 0xc41c, 0xd595, 0xa12a, 0xb0a3, 0x8238, 0x93b1,
    0x6b46, 0x7acf, 0x4854, 0x59dd, 0x2d62, 0x3ceb, 0x0e70, 0x1ff9,
    0xf78f, 0xe606, 0xd49d, 0xc514, 0xb1ab, 0xa022, 0x92b9, 0x8330,
    0x7bc7, 0x6a4e, 0x58d5, 0x495c, 0x3de3, 0x2c6a, 0x1ef1, 0x0f78\<close>, computed in 32 bits as C does.\<close>

definition PPP_FCS :: "u_int \<Rightarrow> u_char \<Rightarrow> u_int" where
  "PPP_FCS fcs c = drop_bit 8 fcs XOR ucast (fcstab ! unat ((fcs XOR ucast c) AND 0xff))"

text \<open>The loop of \<^verbatim>\<open>ppp_get_fcs\<close>: \<open>nbit\<close> counts the iterations that remain.\<close>

fun ppp_get_fcs_loop :: "nat \<Rightarrow> u_int \<Rightarrow> u_int" where
  "ppp_get_fcs_loop 0 octet = octet"
| "ppp_get_fcs_loop (Suc nbit) octet =
     ppp_get_fcs_loop nbit
       (if octet AND 0x01 \<noteq> 0 then drop_bit 1 octet XOR 0x8408 else drop_bit 1 octet)"

definition ppp_get_fcs :: "u_char \<Rightarrow> u_short" where
  "ppp_get_fcs byte = ucast (ppp_get_fcs_loop 8 (ucast byte) AND 0xffff)"

text \<open>\<^verbatim>\<open>PPP_FCS(fcs, c)\<close> without \<^verbatim>\<open>PPP_FCS_    0x0000, 0x1189, 0x2312, 0x329b, 0x4624, 0x57ad, 0x6536, 0x74bf,
    0x8c48, 0x9dc1, 0xaf5a, 0xbed3, 0xca6c, 0xdbe5, 0xe97e, 0xf8f7,
    0x1081, 0x0108, 0x3393, 0x221a, 0x56a5, 0x472c, 0x75b7, 0x643e,
    0x9cc9, 0x8d40, 0xbfdb, 0xae52, 0xdaed, 0xcb64, 0xf9ff, 0xe876,
    0x2102, 0x308b, 0x0210, 0x1399, 0x6726, 0x76af, 0x4434, 0x55bd,
    0xad4a, 0xbcc3, 0x8e58, 0x9fd1, 0xeb6e, 0xfae7, 0xc87c, 0xd9f5,
    0x3183, 0x200a, 0x1291, 0x0318, 0x77a7, 0x662e, 0x54b5, 0x453c,
    0xbdcb, 0xac42, 0x9ed9, 0x8f50, 0xfbef, 0xea66, 0xd8fd, 0xc974,
    0x4204, 0x538d, 0x6116, 0x709f, 0x0420, 0x15a9, 0x2732, 0x36bb,
    0xce4c, 0xdfc5, 0xed5e, 0xfcd7, 0x8868, 0x99e1, 0xab7a, 0xbaf3,
    0x5285, 0x430c, 0x7197, 0x601e, 0x14a1, 0x0528, 0x37b3, 0x263a,
    0xdecd, 0xcf44, 0xfddf, 0xec56, 0x98e9, 0x8960, 0xbbfb, 0xaa72,
    0x6306, 0x728f, 0x4014, 0x519d, 0x2522, 0x34ab, 0x0630, 0x17b9,
    0xef4e, 0xfec7, 0xcc5c, 0xddd5, 0xa96a, 0xb8e3, 0x8a78, 0x9bf1,
    0x7387, 0x620e, 0x5095, 0x411c, 0x35a3, 0x242a, 0x16b1, 0x0738,
    0xffcf, 0xee46, 0xdcdd, 0xcd54, 0xb9eb, 0xa862, 0x9af9, 0x8b70,
    0x8408, 0x9581, 0xa71a, 0xb693, 0xc22c, 0xd3a5, 0xe13e, 0xf0b7,
    0x0840, 0x19c9, 0x2b52, 0x3adb, 0x4e64, 0x5fed, 0x6d76, 0x7cff,
    0x9489, 0x8500, 0xb79b, 0xa612, 0xd2ad, 0xc324, 0xf1bf, 0xe036,
    0x18c1, 0x0948, 0x3bd3, 0x2a5a, 0x5ee5, 0x4f6c, 0x7df7, 0x6c7e,
    0xa50a, 0xb483, 0x8618, 0x9791, 0xe32e, 0xf2a7, 0xc03c, 0xd1b5,
    0x2942, 0x38cb, 0x0a50, 0x1bd9, 0x6f66, 0x7eef, 0x4c74, 0x5dfd,
    0xb58b, 0xa402, 0x9699, 0x8710, 0xf3af, 0xe226, 0xd0bd, 0xc134,
    0x39c3, 0x284a, 0x1ad1, 0x0b58, 0x7fe7, 0x6e6e, 0x5cf5, 0x4d7c,
    0xc60c, 0xd785, 0xe51e, 0xf497, 0x8028, 0x91a1, 0xa33a, 0xb2b3,
    0x4a44, 0x5bcd, 0x6956, 0x78df, 0x0c60, 0x1de9, 0x2f72, 0x3efb,
    0xd68d, 0xc704, 0xf59f, 0xe416, 0x90a9, 0x8120, 0xb3bb, 0xa232,
    0x5ac5, 0x4b4c, 0x79d7, 0x685e, 0x1ce1, 0x0d68, 0x3ff3, 0x2e7a,
    0xe70e, 0xf687, 0xc41c, 0xd595, 0xa12a, 0xb0a3, 0x8238, 0x93b1,
    0x6b46, 0x7acf, 0x4854, 0x59dd, 0x2d62, 0x3ceb, 0x0e70, 0x1ff9,
    0xf78f, 0xe606, 0xd49d, 0xc514, 0xb1ab, 0xa022, 0x92b9, 0x8330,
    0x7bc7, 0x6a4e, 0x58d5, 0x495c, 0x3de3, 0x2c6a, 0x1ef1, 0x0f78\<close>.\<close>

definition PPP_FCS_compact :: "u_int \<Rightarrow> u_char \<Rightarrow> u_int" where
  "PPP_FCS_compact fcs c =
     drop_bit 8 fcs XOR ucast (ppp_get_fcs (ucast ((fcs XOR ucast c) AND 0xff)))"

subsection \<open>The asynchronous control character map\<close>

text \<open>An \<^verbatim>\<open>ext_accm\<close> is an array of 32 bytes.\<close>

type_synonym ext_accm = "u_char list"

definition ppp_accm_mask :: "u_char list" where
  "ppp_accm_mask = [0x01, 0x02, 0x04, 0x08, 0x10, 0x20, 0x40, 0x80]"

definition ESCAPE_P :: "ext_accm \<Rightarrow> u_char \<Rightarrow> u_char" where
  "ESCAPE_P accm c = (accm ! unat (drop_bit 3 c)) AND (ppp_accm_mask ! unat (c AND 0x07))"

subsection \<open>Buffers and the world outside the framer\<close>

text \<open>
  Modelled from the spec: \<^verbatim>\<open>struct pbuf\<close> is declared in a header that is not among the
  sources. A buffer has a fixed-capacity payload area, its own length \<open>len\<close>, the
  cumulative length \<open>tot_len\<close> and the link to the next buffer. Lengths are natural
  numbers: frames are taken to be shorter than the range of the 16-bit C fields.
\<close>

record pbuf =
  "next" :: ptr
  payload :: "u_char list"
  tot_len :: nat
  len :: nat

text \<open>
  Everything the framer shares with the rest of the system: the store of buffers, the
  buffer pool (the outcome of the k-th allocation is given by \<open>pool\<close>), the log of
  \<^verbatim>\<open>pbuf_free\<close> calls, the serial line (the k-th \<^verbatim>\<open>sio_write\<close> accepts at most
  \<open>sio_cap k\<close> bytes), the tick counter, the statistics, and the packets handed to
  \<^verbatim>\<open>ppp_input\<close>.
\<close>

record sys =
  heap :: "ptr \<Rightarrow> pbuf"
  brk :: ptr
  pool :: "nat \<Rightarrow> bool"
  nalloc :: nat
  freed :: "ptr list"
  wire :: "u_char list"
  sio_cap :: "nat \<Rightarrow> nat"
  sio_calls :: nat
  jiffies :: u_int
  link_memerr :: nat
  link_proterr :: nat
  link_drop :: nat
  link_lenerr :: nat
  link_chkerr :: nat
  link_err :: nat
  link_xmit :: nat
  ifoutdiscards :: nat
  ifindiscards :: nat
  ifoutoctets :: nat
  ifoutucastpkts :: nat
  vj_uncompress_errs :: nat
  delivered :: "ptr list"

text \<open>
  Modelled from the spec: \<^verbatim>\<open>pbuf_alloc\<close>, \<^verbatim>\<open>pbuf_free\<close>, \<^verbatim>\<open>pbuf_cat\<close> and
  \<^verbatim>\<open>pbuf_realloc\<close> belong to the buffer pool, which is not among the sources.
  \<^verbatim>\<open>pbuf_alloc(PBUF_RAW, 0, PBUF_POOL)\<close> returns a fresh empty buffer or the null
  pointer; the payload area starts zeroed. \<^verbatim>\<open>pbuf_free\<close> is recorded in the log.
  \<^verbatim>\<open>pbuf_cat(h, t)\<close> walks to the last buffer of \<open>h\<close>, adds the total length of
  \<open>t\<close> to every total on the way and links \<open>t\<close>. \<^verbatim>\<open>pbuf_realloc(p, n)\<close> shrinks the
  chain to \<open>n\<close> bytes and frees the buffers behind the new last one. A walk that does
  not return (a cyclic chain, or a chain shorter than its total) is \<open>None\<close>.
\<close>

definition pbuf_alloc :: "opts \<Rightarrow> sys \<Rightarrow> ptr \<times> sys" where
  "pbuf_alloc opt w =
     (if pool w (nalloc w)
      then (Suc (brk w),
            w\<lparr>heap := (heap w)(Suc (brk w) :=
                  \<lparr>next = NULL, payload = replicate (PBUF_POOL_BUFSIZE opt) 0,
                   tot_len = 0, len = 0\<rparr>),
              brk := Suc (brk w), nalloc := Suc (nalloc w)\<rparr>)
      else (NULL, w\<lparr>nalloc := Suc (nalloc w)\<rparr>))"

definition pbuf_free :: "ptr \<Rightarrow> sys \<Rightarrow> sys" where
  "pbuf_free p w = w\<lparr>freed := freed w @ [p]\<rparr>"

partial_function (option) pbuf_cat_loop ::
  "ptr \<Rightarrow> ptr \<Rightarrow> (ptr \<Rightarrow> pbuf) \<Rightarrow> (ptr \<times> (ptr \<Rightarrow> pbuf)) option" where
  "pbuf_cat_loop p t h =
     (if p = NULL then None
      else if next (h p) \<noteq> NULL
      then pbuf_cat_loop (next (h p)) t
             (h(p := (h p)\<lparr>tot_len := tot_len (h p) + tot_len (h t)\<rparr>))
      else Some (p, h))"

declare pbuf_cat_loop.simps [code]

definition pbuf_cat :: "ptr \<Rightarrow> ptr \<Rightarrow> sys \<Rightarrow> sys option" where
  "pbuf_cat h t w =
     (if h = NULL \<or> t = NULL then Some w
      else case pbuf_cat_loop h t (heap w) of
        None \<Rightarrow> None
      | Some (p, hp) \<Rightarrow>
          Some (w\<lparr>heap := hp(p := (hp p)\<lparr>tot_len := tot_len (hp p) + tot_len (hp t),
                                        next := t\<rparr>)\<rparr>))"

partial_function (option) pbuf_realloc_loop ::
  "ptr \<Rightarrow> nat \<Rightarrow> nat \<Rightarrow> (ptr \<Rightarrow> pbuf) \<Rightarrow> (ptr \<times> nat \<times> (ptr \<Rightarrow> pbuf)) option" where
  "pbuf_realloc_loop q rem_len shrink h =
     (if q = NULL then None
      else if rem_len > len (h q)
      then pbuf_realloc_loop (next (h q)) (rem_len - len (h q)) shrink
             (h(q := (h q)\<lparr>tot_len := tot_len (h q) - shrink\<rparr>))
      else Some (q, rem_len, h))"

declare pbuf_realloc_loop.simps [code]

definition pbuf_realloc :: "ptr \<Rightarrow> nat \<Rightarrow> sys \<Rightarrow> sys option" where
  "pbuf_realloc p new_len w =
     (if new_len \<ge> tot_len (heap w p) then Some w
      else case pbuf_realloc_loop p new_len (tot_len (heap w p) - new_len) (heap w) of
        None \<Rightarrow> None
      | Some (q, rem_len, h) \<Rightarrow>
          let w1 = w\<lparr>heap := h(q := (h q)\<lparr>tot_len := rem_len, len := rem_len\<rparr>)\<rparr>;
              w2 = (if next (heap w1 q) \<noteq> NULL then pbuf_free (next (heap w1 q)) w1 else w1)
          in Some (w2\<lparr>heap := (heap w2)(q := (heap w2 q)\<lparr>next := NULL\<rparr>)\<rparr>))"

text \<open>
  Modelled from the spec: the serial device is "a byte sink with a single write
  primitive returning the number of bytes actually written". The bytes accepted go on
  the wire.
\<close>

definition sio_write :: "u_char list \<Rightarrow> nat \<Rightarrow> sys \<Rightarrow> nat \<times> sys" where
  "sio_write data n w =
     (let c = min n (sio_cap w (sio_calls w))
      in (c, w\<lparr>wire := wire w @ take c data, sio_calls := Suc (sio_calls w)\<rparr>))"

definition sys_jiffies :: "sys \<Rightarrow> u_int" where
  "sys_jiffies w = jiffies w"

definition ppp_input :: "ptr \<Rightarrow> sys \<Rightarrow> sys" where
  "ppp_input inp w = w\<lparr>delivered := delivered w @ [inp]\<rparr>"

subsection \<open>pppos_append\<close>

text \<open>The store \<^verbatim>\<open>*((u_char*)nb->payload + nb->len++) = x\<close>.\<close>

definition store_byte :: "ptr \<Rightarrow> u_char \<Rightarrow> sys \<Rightarrow> sys" where
  "store_byte nb x w =
     w\<lparr>heap := (heap w)(nb := (heap w nb)\<lparr>payload := (payload (heap w nb))[len (heap w nb) := x],
                                           len := Suc (len (heap w nb))\<rparr>)\<rparr>"

definition pppos_append :: "opts \<Rightarrow> u_char \<Rightarrow> ptr \<Rightarrow> ext_accm option \<Rightarrow> sys \<Rightarrow> ptr \<times> sys" where
  "pppos_append opt c nb out_accm w =
     (let (tb, nb1, w1) =
            (if nb \<noteq> NULL \<and> int (PBUF_POOL_BUFSIZE opt) - int (len (heap w nb)) < 2
             then (case pbuf_alloc opt w of (tb, wa) \<Rightarrow>
                     if tb \<noteq> NULL
                     then (tb, tb, wa\<lparr>heap := (heap wa)(nb := (heap wa nb)\<lparr>next := tb\<rparr>)\<rparr>)
                     else (tb, tb, wa\<lparr>link_memerr := Suc (link_memerr wa)\<rparr>))
             else (nb, nb, w));
          w2 = (if nb1 \<noteq> NULL
                then (if out_accm \<noteq> None \<and> ESCAPE_P (the out_accm) c \<noteq> 0
                      then store_byte nb1 (c XOR PPP_TRANS) (store_byte nb1 PPP_ESCAPE w1)
                      else store_byte nb1 c w1)
                else w1)
      in (tb, w2))"

subsection \<open>The link context\<close>

text \<open>
  Modelled from the spec: the states of the receive machine are an enumeration of a
  header that is not among the sources; the spec gives their order
  (IDLE, START, ADDRESS, CONTROL, PROTOCOL1, PROTOCOL2, DATA).
\<close>

datatype pd_state = PDIDLE | PDSTART | PDADDRESS | PDCONTROL | PDPROTOCOL1 | PDPROTOCOL2 | PDDATA

fun pd_num :: "pd_state \<Rightarrow> nat" where
  "pd_num PDIDLE = 0"
| "pd_num PDSTART = 1"
| "pd_num PDADDRESS = 2"
| "pd_num PDCONTROL = 3"
| "pd_num PDPROTOCOL1 = 4"
| "pd_num PDPROTOCOL2 = 5"
| "pd_num PDDATA = 6"

record ppp_pcb_rx =
  in_accm :: ext_accm
  in_head :: ptr
  in_tail :: ptr
  in_protocol :: u_short
  in_fcs :: u_short
  in_state :: pd_state
  in_escaped :: bool

text \<open>The fields of \<^verbatim>\<open>ppp_pcb\<close> and \<^verbatim>\<open>pppos_pcb\<close> that the framer uses.\<close>

record ppp_pcb =
  rx :: ppp_pcb_rx
  out_accm :: ext_accm
  last_xmit :: u_int
  accomp :: bool
  pcomp :: bool
  vj_enabled :: bool

datatype error = NullDeref

datatype err_t = ERR_OK | ERR_MEM | ERR_VAL

datatype ppperr = PPPERR_NONE | PPPERR_ALLOC

text \<open>
  Modelled from the spec: the Van Jacobson compressor is a pluggable codec outside the
  framer. Its result type is a datatype, and the compressor is a parameter of the
  transmit path.
\<close>

datatype vj_type = TYPE_IP | TYPE_COMPRESSED_TCP | TYPE_UNCOMPRESSED_TCP | TYPE_ERROR

type_synonym vj_compress = "ptr \<Rightarrow> sys \<Rightarrow> vj_type \<times> sys"

subsection \<open>pppos_xmit\<close>

partial_function (option) pppos_xmit_loop ::
  "ptr \<Rightarrow> ptr \<Rightarrow> ppp_pcb \<Rightarrow> sys \<Rightarrow> (bool \<times> ppp_pcb \<times> sys) option" where
  "pppos_xmit_loop nb b ppp w =
     (if b = NULL then Some (True, ppp, w)
      else case sio_write (payload (heap w b)) (len (heap w b)) w of (c, w1) \<Rightarrow>
        if c \<noteq> len (heap w1 b)
        then Some (False, ppp\<lparr>last_xmit := 0\<rparr>,
                   pbuf_free nb (w1\<lparr>link_err := Suc (link_err w1),
                                    ifoutdiscards := Suc (ifoutdiscards w1)\<rparr>))
        else pppos_xmit_loop nb (next (heap w1 b)) ppp w1)"

declare pppos_xmit_loop.simps [code]

definition pppos_xmit :: "ptr \<Rightarrow> ppp_pcb \<Rightarrow> sys \<Rightarrow> (error + ppp_pcb \<times> sys) option" where
  "pppos_xmit nb ppp w =
     (case pppos_xmit_loop nb nb ppp w of
        None \<Rightarrow> None
      | Some (complete, ppp1, w1) \<Rightarrow>
          if \<not> complete then Some (Inr (ppp1, w1))
          else if nb = NULL then Some (Inl NullDeref)
          else Some (Inr (ppp1,
                 (pbuf_free nb (w1\<lparr>ifoutoctets := ifoutoctets w1 + tot_len (heap w1 nb),
                                   ifoutucastpkts := Suc (ifoutucastpkts w1)\<rparr>))
                 \<lparr>link_xmit := Suc (link_xmit w1)\<rparr>)))"

subsection \<open>The transmit callbacks\<close>

text \<open>
  The loop \<^verbatim>\<open>while (n-- > 0) { c = *s++; ... }\<close> of both callbacks: \<open>i\<close> is the offset of
  \<open>s\<close> in the payload of \<open>p\<close>, and the state is the running FCS, the tail and the world.
\<close>

fun load_loop ::
  "opts \<Rightarrow> ext_accm \<Rightarrow> ptr \<Rightarrow> nat \<Rightarrow> nat \<Rightarrow> u_int \<times> ptr \<times> sys \<Rightarrow> u_int \<times> ptr \<times> sys" where
  "load_loop opt accm p i 0 st = st"
| "load_loop opt accm p i (Suc n) (fcs_out, tail, w) =
     (let c = payload (heap w p) ! i;
          fcs_out1 = PPP_FCS fcs_out c
      in case pppos_append opt c tail (Some accm) w of (tail1, w1) \<Rightarrow>
           load_loop opt accm p (Suc i) n (fcs_out1, tail1, w1))"

text \<open>The statements under "Add FCS and trailing flag", the same in both callbacks.\<close>

definition add_fcs_and_flag ::
  "opts \<Rightarrow> ext_accm \<Rightarrow> u_int \<times> ptr \<times> sys \<Rightarrow> ptr \<times> sys" where
  "add_fcs_and_flag opt accm st =
     (case st of (fcs_out, tail, w) \<Rightarrow>
        case pppos_append opt (ucast (NOT fcs_out AND 0xFF)) tail (Some accm) w of (tail1, w1) \<Rightarrow>
        case pppos_append opt (ucast (drop_bit 8 (NOT fcs_out) AND 0xFF)) tail1 (Some accm) w1
          of (tail2, w2) \<Rightarrow>
        pppos_append opt PPP_FLAG tail2 None w2)"

text \<open>The idle check that opens both callbacks, with the update of \<open>last_xmit\<close>.\<close>

definition idle_flag :: "opts \<Rightarrow> ppp_pcb \<Rightarrow> ptr \<Rightarrow> sys \<Rightarrow> ptr \<times> sys" where
  "idle_flag opt ppp tail w =
     (if sys_jiffies w - last_xmit ppp \<ge> PPP_MAXIDLEFLAG opt
      then pppos_append opt PPP_FLAG tail None w
      else (tail, w))"

definition pppos_link_write_callback ::
  "opts \<Rightarrow> ptr \<Rightarrow> ppp_pcb \<Rightarrow> sys \<Rightarrow> (error + ppperr \<times> ppp_pcb \<times> sys) option" where
  "pppos_link_write_callback opt p ppp w =
     (if p = NULL then Some (Inl NullDeref)
      else
        let n = len (heap w p) in
        case pbuf_alloc opt w of (head, w0) \<Rightarrow>
        if head = NULL
        then Some (Inr (PPPERR_ALLOC, ppp,
               pbuf_free p (w0\<lparr>link_memerr := Suc (link_memerr w0),
                                link_proterr := Suc (link_proterr w0),
                                ifoutdiscards := Suc (ifoutdiscards w0)\<rparr>)))
        else
          case idle_flag opt ppp head w0 of (tail1, w1) \<Rightarrow>
          let ppp1 = ppp\<lparr>last_xmit := sys_jiffies w1\<rparr> in
          case add_fcs_and_flag opt (out_accm ppp1)
                 (load_loop opt (out_accm ppp1) p 0 n (PPP_INITFCS, tail1, w1)) of (tail2, w2) \<Rightarrow>
          if tail2 = NULL
          then
            (let w3 = pbuf_free head w2;
                 w4 = w3\<lparr>link_memerr := Suc (link_memerr w3),
                         link_proterr := Suc (link_proterr w3),
                         ifoutdiscards := Suc (ifoutdiscards w3)\<rparr>
             in Some (Inr (PPPERR_ALLOC, ppp1, pbuf_free p w4)))
          else
            case pppos_xmit head ppp1 w2 of
              None \<Rightarrow> None
            | Some (Inl e) \<Rightarrow> Some (Inl e)
            | Some (Inr (ppp2, w3)) \<Rightarrow> Some (Inr (PPPERR_NONE, ppp2, pbuf_free p w3)))"

text \<open>The loop \<^verbatim>\<open>for(p = pb; p; p = p->next)\<close> of the netif output callback.\<close>

partial_function (option) load_packet ::
  "opts \<Rightarrow> ext_accm \<Rightarrow> ptr \<Rightarrow> u_int \<times> ptr \<times> sys \<Rightarrow> (u_int \<times> ptr \<times> sys) option" where
  "load_packet opt accm p st =
     (if p = NULL then Some st
      else case load_loop opt accm p 0 (len (heap (snd (snd st)) p)) st of (fcs_out, tail, w) \<Rightarrow>
        load_packet opt accm (next (heap w p)) (fcs_out, tail, w))"

declare load_packet.simps [code]

text \<open>"Build the PPP header": address and control, then the protocol field.\<close>

definition build_header ::
  "opts \<Rightarrow> ppp_pcb \<Rightarrow> u_short \<Rightarrow> u_int \<times> ptr \<times> sys \<Rightarrow> u_int \<times> ptr \<times> sys" where
  "build_header opt ppp protocol st =
     (let st1 =
            (if \<not> accomp ppp
             then (case st of (fcs_out, tail, w) \<Rightarrow>
                     case pppos_append opt PPP_ALLSTATIONS tail (Some (out_accm ppp)) w
                       of (tail1, w1) \<Rightarrow>
                     case pppos_append opt PPP_UI tail1 (Some (out_accm ppp)) w1
                       of (tail2, w2) \<Rightarrow>
                     (PPP_FCS (PPP_FCS fcs_out PPP_ALLSTATIONS) PPP_UI, tail2, w2))
             else st);
          st2 =
            (if \<not> pcomp ppp \<or> protocol > 0xFF
             then (case st1 of (fcs_out, tail, w) \<Rightarrow>
                     let c = ucast (drop_bit 8 protocol AND 0xFF) in
                     case pppos_append opt c tail (Some (out_accm ppp)) w of (tail1, w1) \<Rightarrow>
                     (PPP_FCS fcs_out c, tail1, w1))
             else st1)
      in case st2 of (fcs_out, tail, w) \<Rightarrow>
           let c = ucast (protocol AND 0xFF) in
           case pppos_append opt c tail (Some (out_accm ppp)) w of (tail1, w1) \<Rightarrow>
           (PPP_FCS fcs_out c, tail1, w1))"

definition pppos_link_netif_output_callback ::
  "opts \<Rightarrow> vj_compress \<Rightarrow> ptr \<Rightarrow> u_short \<Rightarrow> ppp_pcb \<Rightarrow> sys
     \<Rightarrow> (error + err_t \<times> ppp_pcb \<times> sys) option" where
  "pppos_link_netif_output_callback opt vj_compress_tcp pb protocol ppp w =
     (case pbuf_alloc opt w of (head, w0) \<Rightarrow>
      if head = NULL
      then Some (Inr (ERR_MEM, ppp,
             w0\<lparr>link_memerr := Suc (link_memerr w0), link_drop := Suc (link_drop w0),
                ifoutdiscards := Suc (ifoutdiscards w0)\<rparr>))
      else
        case (if protocol = PPP_IP \<and> vj_enabled ppp
              then (case vj_compress_tcp pb w0 of
                      (TYPE_IP, wv) \<Rightarrow> (Some protocol, wv)
                    | (TYPE_COMPRESSED_TCP, wv) \<Rightarrow> (Some PPP_VJC_COMP, wv)
                    | (TYPE_UNCOMPRESSED_TCP, wv) \<Rightarrow> (Some PPP_VJC_UNCOMP, wv)
                    | (TYPE_ERROR, wv) \<Rightarrow> (None, wv))
              else (Some protocol, w0)) of
          (None, wv) \<Rightarrow>
            Some (Inr (ERR_VAL, ppp,
              pbuf_free head (wv\<lparr>link_proterr := Suc (link_proterr wv),
                                  link_drop := Suc (link_drop wv),
                                  ifoutdiscards := Suc (ifoutdiscards wv)\<rparr>)))
        | (Some protocol1, wv) \<Rightarrow>
            case idle_flag opt ppp head wv of (tail1, w1) \<Rightarrow>
            let ppp1 = ppp\<lparr>last_xmit := sys_jiffies w1\<rparr> in
            case load_packet opt (out_accm ppp1) pb
                   (build_header opt ppp1 protocol1 (PPP_INITFCS, tail1, w1)) of
              None \<Rightarrow> None
            | Some st \<Rightarrow>
                case add_fcs_and_flag opt (out_accm ppp1) st of (tail2, w2) \<Rightarrow>
                if tail2 = NULL
                then
                  (let w3 = pbuf_free head w2
                   in Some (Inr (ERR_MEM, ppp1,
                        w3\<lparr>link_memerr := Suc (link_memerr w3),
                           link_drop := Suc (link_drop w3),
                           ifoutdiscards := Suc (ifoutdiscards w3)\<rparr>)))
                else
                  case pppos_xmit head ppp1 w2 of
                    None \<Rightarrow> None
                  | Some (Inl e) \<Rightarrow> Some (Inl e)
                  | Some (Inr (ppp2, w3)) \<Rightarrow> Some (Inr (ERR_OK, ppp2, w3)))"

subsection \<open>The receive path\<close>

definition pppos_free_current_input_packet :: "ppp_pcb_rx \<Rightarrow> sys \<Rightarrow> ppp_pcb_rx \<times> sys" where
  "pppos_free_current_input_packet pcrx w =
     (case (if in_head pcrx \<noteq> NULL
            then (let w1 = (if in_tail pcrx \<noteq> NULL \<and> in_tail pcrx \<noteq> in_head pcrx
                            then pbuf_free (in_tail pcrx) w else w)
                  in (pcrx\<lparr>in_head := NULL\<rparr>, pbuf_free (in_head pcrx) w1))
            else (pcrx, w)) of
        (pcrx1, w1) \<Rightarrow> (pcrx1\<lparr>in_tail := NULL\<rparr>, w1))"

definition pppos_drop :: "ppp_pcb_rx \<Rightarrow> sys \<Rightarrow> ppp_pcb_rx \<times> sys" where
  "pppos_drop pcrx w =
     (case pppos_free_current_input_packet pcrx w of (pcrx1, w1) \<Rightarrow>
        (pcrx1, w1\<lparr>vj_uncompress_errs := Suc (vj_uncompress_errs w1),
                   link_drop := Suc (link_drop w1),
                   ifindiscards := Suc (ifindiscards w1)\<rparr>))"

text \<open>
  The branch "Otherwise it's a good packet so pass it on": trim the checksum, hand the
  chain to \<^verbatim>\<open>ppp_input\<close>, release the references. The argument of \<^verbatim>\<open>pbuf_realloc\<close>
  is a 16-bit value, so the subtraction wraps.
\<close>

definition pass_on :: "ppp_pcb_rx \<Rightarrow> sys \<Rightarrow> (error + ppp_pcb_rx \<times> sys) option" where
  "pass_on pcrx w =
     (let t = in_tail pcrx; h = in_head pcrx in
      if t = NULL then Some (Inl NullDeref)
      else
        case (if len (heap w t) > 2
              then
                (let w1 = w\<lparr>heap := (heap w)(t := (heap w t)\<lparr>len := len (heap w t) - 2\<rparr>)\<rparr>;
                     w2 = w1\<lparr>heap := (heap w1)(t := (heap w1 t)\<lparr>tot_len := len (heap w1 t)\<rparr>)\<rparr>
                 in case (if t \<noteq> h then pbuf_cat h t w2 else Some w2) of
                      None \<Rightarrow> None
                    | Some w3 \<Rightarrow> Some (Inr w3))
              else
                (let w1 = w\<lparr>heap := (heap w)(t := (heap w t)\<lparr>tot_len := len (heap w t)\<rparr>)\<rparr>
                 in case (if t \<noteq> h then pbuf_cat h t w1 else Some w1) of
                      None \<Rightarrow> None
                    | Some w2 \<Rightarrow>
                        if h = NULL then Some (Inl NullDeref)
                        else (case pbuf_realloc h ((tot_len (heap w2 h) + 65536 - 2) mod 65536) w2 of
                                None \<Rightarrow> None
                              | Some w3 \<Rightarrow> Some (Inr w3)))) of
          None \<Rightarrow> None
        | Some (Inl e) \<Rightarrow> Some (Inl e)
        | Some (Inr w4) \<Rightarrow>
            Some (Inr (pcrx\<lparr>in_head := NULL, in_tail := NULL\<rparr>, ppp_input h w4)))"

text \<open>What \<^verbatim>\<open>pppos_input\<close> does with a flag character.\<close>

definition on_flag :: "ppp_pcb_rx \<Rightarrow> sys \<Rightarrow> (error + ppp_pcb_rx \<times> sys) option" where
  "on_flag pcrx w =
     (case (if pd_num (in_state pcrx) \<le> pd_num PDADDRESS then Some (Inr (pcrx, w))
            else if pd_num (in_state pcrx) < pd_num PDDATA
            then Some (Inr (pppos_drop pcrx (w\<lparr>link_lenerr := Suc (link_lenerr w)\<rparr>)))
            else if ucast (in_fcs pcrx) \<noteq> PPP_GOODFCS
            then Some (Inr (pppos_drop pcrx (w\<lparr>link_chkerr := Suc (link_chkerr w)\<rparr>)))
            else pass_on pcrx w) of
        None \<Rightarrow> None
      | Some (Inl e) \<Rightarrow> Some (Inl e)
      | Some (Inr (pcrx1, w1)) \<Rightarrow>
          Some (Inr (pcrx1\<lparr>in_fcs := ucast PPP_INITFCS, in_state := PDADDRESS,
                           in_escaped := False\<rparr>, w1)))"

text \<open>The cases of the switch on \<open>in_state\<close>; a case that falls through calls the next.\<close>

definition case_PDPROTOCOL1 :: "u_char \<Rightarrow> ppp_pcb_rx \<Rightarrow> ppp_pcb_rx" where
  "case_PDPROTOCOL1 cur_char pcrx =
     (if cur_char AND 1 \<noteq> 0
      then pcrx\<lparr>in_protocol := ucast cur_char, in_state := PDDATA\<rparr>
      else pcrx\<lparr>in_protocol := push_bit 8 (ucast cur_char), in_state := PDPROTOCOL2\<rparr>)"

definition case_PDCONTROL :: "u_char \<Rightarrow> ppp_pcb_rx \<Rightarrow> ppp_pcb_rx" where
  "case_PDCONTROL cur_char pcrx =
     (if cur_char = PPP_UI then pcrx\<lparr>in_state := PDPROTOCOL1\<rparr>
      else case_PDPROTOCOL1 cur_char pcrx)"

definition case_PDADDRESS :: "u_char \<Rightarrow> ppp_pcb_rx \<Rightarrow> ppp_pcb_rx" where
  "case_PDADDRESS cur_char pcrx =
     (if cur_char = PPP_ALLSTATIONS then pcrx\<lparr>in_state := PDCONTROL\<rparr>
      else case_PDCONTROL cur_char pcrx)"

definition case_PDSTART :: "u_char \<Rightarrow> ppp_pcb_rx \<Rightarrow> ppp_pcb_rx" where
  "case_PDSTART cur_char pcrx = case_PDADDRESS cur_char (pcrx\<lparr>in_fcs := ucast PPP_INITFCS\<rparr>)"

definition case_PDIDLE :: "u_char \<Rightarrow> ppp_pcb_rx \<Rightarrow> ppp_pcb_rx" where
  "case_PDIDLE cur_char pcrx =
     (if cur_char \<noteq> PPP_ALLSTATIONS then pcrx else case_PDSTART cur_char pcrx)"

definition case_PDPROTOCOL2 :: "u_char \<Rightarrow> ppp_pcb_rx \<Rightarrow> ppp_pcb_rx" where
  "case_PDPROTOCOL2 cur_char pcrx =
     pcrx\<lparr>in_protocol := in_protocol pcrx OR ucast cur_char, in_state := PDDATA\<rparr>"

text \<open>
  The block \<^verbatim>\<open>if (pcrx->in_tail != NULL) { ... }\<close> of the data case: close the full tail
  and, when it is not the head, link it to the head and give up the reference.
\<close>

definition close_tail :: "ppp_pcb_rx \<Rightarrow> sys \<Rightarrow> (ppp_pcb_rx \<times> sys) option" where
  "close_tail pcrx w =
     (if in_tail pcrx \<noteq> NULL
      then (let t = in_tail pcrx;
                w1 = w\<lparr>heap := (heap w)(t := (heap w t)\<lparr>tot_len := len (heap w t)\<rparr>)\<rparr>
            in if t \<noteq> in_head pcrx
               then (case pbuf_cat (in_head pcrx) t w1 of
                       None \<Rightarrow> None
                     | Some w2 \<Rightarrow> Some (pcrx\<lparr>in_tail := NULL\<rparr>, w2))
               else Some (pcrx, w1))
      else Some (pcrx, w))"

text \<open>The first buffer of a packet starts with the two bytes of the protocol number.\<close>

definition start_packet :: "ptr \<Rightarrow> ppp_pcb_rx \<Rightarrow> sys \<Rightarrow> ppp_pcb_rx \<times> sys" where
  "start_packet next_pbuf pcrx w =
     (if in_head pcrx = NULL
      then (pcrx\<lparr>in_head := next_pbuf\<rparr>,
            w\<lparr>heap := (heap w)(next_pbuf := (heap w next_pbuf)
                 \<lparr>payload := (payload (heap w next_pbuf))
                     [0 := ucast (drop_bit 8 (in_protocol pcrx)),
                      1 := ucast (in_protocol pcrx AND 0xFF)],
                  len := len (heap w next_pbuf) + 2\<rparr>)\<rparr>)
      else (pcrx, w))"

definition case_PDDATA :: "opts \<Rightarrow> u_char \<Rightarrow> ppp_pcb_rx \<Rightarrow> sys \<Rightarrow> (ppp_pcb_rx \<times> sys) option" where
  "case_PDDATA opt cur_char pcrx w =
     (if in_tail pcrx = NULL \<or> len (heap w (in_tail pcrx)) = PBUF_POOL_BUFSIZE opt
      then
        case close_tail pcrx w of
          None \<Rightarrow> None
        | Some (pcrx1, w1) \<Rightarrow>
            case pbuf_alloc opt w1 of (next_pbuf, w2) \<Rightarrow>
            if next_pbuf = NULL
            then (case pppos_drop pcrx1 (w2\<lparr>link_memerr := Suc (link_memerr w2)\<rparr>) of
                    (pcrx2, w3) \<Rightarrow> Some (pcrx2\<lparr>in_state := PDSTART\<rparr>, w3))
            else
              case start_packet next_pbuf pcrx1 w2 of (pcrx2, w3) \<Rightarrow>
              Some (pcrx2\<lparr>in_tail := next_pbuf\<rparr>, store_byte next_pbuf cur_char w3)
      else Some (pcrx, store_byte (in_tail pcrx) cur_char w))"

text \<open>One round of the loop of \<^verbatim>\<open>pppos_input\<close>.\<close>

definition pppos_input_byte ::
  "opts \<Rightarrow> u_char \<Rightarrow> ppp_pcb_rx \<Rightarrow> sys \<Rightarrow> (error + ppp_pcb_rx \<times> sys) option" where
  "pppos_input_byte opt cur_char pcrx w =
     (if ESCAPE_P (in_accm pcrx) cur_char \<noteq> 0
      then
        (if cur_char = PPP_ESCAPE then Some (Inr (pcrx\<lparr>in_escaped := True\<rparr>, w))
         else if cur_char = PPP_FLAG then on_flag pcrx w
         else Some (Inr (pcrx, w)))
      else
        case (if in_escaped pcrx then (pcrx\<lparr>in_escaped := False\<rparr>, cur_char XOR PPP_TRANS)
              else (pcrx, cur_char)) of (pcrx1, c) \<Rightarrow>
        case (case in_state pcrx1 of
                PDIDLE \<Rightarrow> Some (case_PDIDLE c pcrx1, w)
              | PDSTART \<Rightarrow> Some (case_PDSTART c pcrx1, w)
              | PDADDRESS \<Rightarrow> Some (case_PDADDRESS c pcrx1, w)
              | PDCONTROL \<Rightarrow> Some (case_PDCONTROL c pcrx1, w)
              | PDPROTOCOL1 \<Rightarrow> Some (case_PDPROTOCOL1 c pcrx1, w)
              | PDPROTOCOL2 \<Rightarrow> Some (case_PDPROTOCOL2 c pcrx1, w)
              | PDDATA \<Rightarrow> case_PDDATA opt c pcrx1 w) of
          None \<Rightarrow> None
        | Some (pcrx2, w2) \<Rightarrow>
            Some (Inr (pcrx2\<lparr>in_fcs := ucast (PPP_FCS (ucast (in_fcs pcrx2)) c)\<rparr>, w2)))"

fun pppos_input_loop ::
  "opts \<Rightarrow> u_char list \<Rightarrow> ppp_pcb_rx \<Rightarrow> sys \<Rightarrow> (error + ppp_pcb_rx \<times> sys) option" where
  "pppos_input_loop opt [] pcrx w = Some (Inr (pcrx, w))"
| "pppos_input_loop opt (cur_char # s) pcrx w =
     (case pppos_input_byte opt cur_char pcrx w of
        None \<Rightarrow> None
      | Some (Inl e) \<Rightarrow> Some (Inl e)
      | Some (Inr (pcrx1, w1)) \<Rightarrow> pppos_input_loop opt s pcrx1 w1)"

definition pppos_input ::
  "opts \<Rightarrow> u_char list \<Rightarrow> ppp_pcb \<Rightarrow> sys \<Rightarrow> (error + ppp_pcb \<times> sys) option" where
  "pppos_input opt s pcb w =
     (case pppos_input_loop opt s (rx pcb) w of
        None \<Rightarrow> None
      | Some (Inl e) \<Rightarrow> Some (Inl e)
      | Some (Inr (pcrx, w1)) \<Rightarrow> Some (Inr (pcb\<lparr>rx := pcrx\<rparr>, w1)))"

subsection \<open>pppos_connect\<close>

text \<open>
  Modelled from the spec: \<^verbatim>\<open>ppp_clear\<close> belongs to the upper engine, which is not among
  the sources; it "resets the per-session state" and is taken to zero the link context.
\<close>

definition ppp_clear :: "ppp_pcb \<Rightarrow> ppp_pcb" where
  "ppp_clear ppp =
     \<lparr>rx = \<lparr>in_accm = replicate 32 0, in_head = NULL, in_tail = NULL, in_protocol = 0,
            in_fcs = 0, in_state = PDIDLE, in_escaped = False\<rparr>,
      out_accm = replicate 32 0, last_xmit = 0, accomp = False, pcomp = False,
      vj_enabled = False\<rparr>"

definition pppos_connect :: "ppp_pcb \<Rightarrow> sys \<Rightarrow> ppp_pcb \<times> sys" where
  "pppos_connect ppp w =
     (case pppos_free_current_input_packet (rx ppp) w of (pcrx, w1) \<Rightarrow>
        let ppp1 = ppp_clear (ppp\<lparr>rx := pcrx\<rparr>);
            ppp2 = ppp1\<lparr>rx := (rx ppp1)\<lparr>in_accm := (in_accm (rx ppp1))[15 := 0x60]\<rparr>\<rparr>
        in (ppp2\<lparr>out_accm := (out_accm ppp2)[15 := 0x60]\<rparr>, w1))"

section \<open>Notions used to state the properties\<close>

subsection \<open>The frame check sequence on 16 bits\<close>

text \<open>
  The receiver keeps the running FCS in a 16-bit field: \<open>fcs16\<close> is one update of it,
  and \<open>fcs16_list\<close> the updates for a sequence of bytes.
\<close>

definition fcs16 :: "u_short \<Rightarrow> u_char \<Rightarrow> u_short" where
  "fcs16 r c = ucast (PPP_FCS (ucast r) c)"

definition fcs_list :: "u_int \<Rightarrow> u_char list \<Rightarrow> u_int" where
  "fcs_list f bs = foldl PPP_FCS f bs"

subsection \<open>Buffers, chains and escaping\<close>

text \<open>The bytes a buffer holds, and the buffers of a chain that ends in the null pointer.\<close>

definition pbuf_data :: "pbuf \<Rightarrow> u_char list" where
  "pbuf_data b = take (len b) (payload b)"

primrec chain :: "(ptr \<Rightarrow> pbuf) \<Rightarrow> ptr \<Rightarrow> ptr list \<Rightarrow> bool" where
  "chain h p [] = (p = NULL)"
| "chain h p (q # qs) = (p = q \<and> q \<noteq> NULL \<and> chain h (next (h q)) qs)"

definition chain_data :: "(ptr \<Rightarrow> pbuf) \<Rightarrow> ptr list \<Rightarrow> u_char list" where
  "chain_data h ps = concat (map (\<lambda>p. pbuf_data (h p)) ps)"

text \<open>What the escape codec of the spec puts on the wire for one byte and for a sequence.\<close>

definition esc :: "ext_accm \<Rightarrow> u_char \<Rightarrow> u_char list" where
  "esc accm c = (if ESCAPE_P accm c \<noteq> 0 then [PPP_ESCAPE, c XOR PPP_TRANS] else [c])"

definition escape :: "ext_accm \<Rightarrow> u_char list \<Rightarrow> u_char list" where
  "escape accm bs = concat (map (esc accm) bs)"

text \<open>The logical insertion of \<open>pppos_append\<close>: escaped when a map is given, else the byte.\<close>

definition insertion :: "ext_accm option \<Rightarrow> u_char \<Rightarrow> u_char list" where
  "insertion accm_opt c = (case accm_opt of None \<Rightarrow> [c] | Some accm \<Rightarrow> esc accm c)"

text \<open>Storing the logical insertion in a buffer with room for it.\<close>

definition store_insertion :: "ptr \<Rightarrow> ext_accm option \<Rightarrow> u_char \<Rightarrow> sys \<Rightarrow> sys" where
  "store_insertion nb accm_opt c w =
     (if accm_opt \<noteq> None \<and> ESCAPE_P (the accm_opt) c \<noteq> 0
      then store_byte nb (c XOR PPP_TRANS) (store_byte nb PPP_ESCAPE w)
      else store_byte nb c w)"

text \<open>Linking a buffer behind another, and the buffer that \<open>pbuf_alloc\<close> hands out.\<close>

definition link_next :: "ptr \<Rightarrow> ptr \<Rightarrow> sys \<Rightarrow> sys" where
  "link_next nb tb w = w\<lparr>heap := (heap w)(nb := (heap w nb)\<lparr>next := tb\<rparr>)\<rparr>"

definition fresh_pbuf :: "opts \<Rightarrow> pbuf" where
  "fresh_pbuf opt = \<lparr>next = NULL, payload = replicate (PBUF_POOL_BUFSIZE opt) 0, tot_len = 0, len = 0\<rparr>"

text \<open>The world without the store, the allocation counters and the count of failed allocations.\<close>

definition rest :: "sys \<Rightarrow> sys" where
  "rest w = w\<lparr>heap := (\<lambda>_. \<lparr>next = NULL, payload = [], tot_len = 0, len = 0\<rparr>), brk := 0, nalloc := 0, link_memerr := 0\<rparr>"

subsection \<open>Concrete inputs\<close>

text \<open>
  An empty world whose pool never runs dry and whose serial line takes every write, a
  caller's buffer put into it, a pool of 4-byte buffers, and the link context that
  \<open>pppos_connect\<close> leaves behind.
\<close>

definition sys0 :: sys where
  "sys0 = \<lparr>heap = (\<lambda>_. \<lparr>next = NULL, payload = [], tot_len = 0, len = 0\<rparr>), brk = 0,
           pool = (\<lambda>_. True), nalloc = 0, freed = [], wire = [], sio_cap = (\<lambda>_. 65535),
           sio_calls = 0, jiffies = 1000, link_memerr = 0, link_proterr = 0, link_drop = 0,
           link_lenerr = 0, link_chkerr = 0, link_err = 0, link_xmit = 0, ifoutdiscards = 0,
           ifindiscards = 0, ifoutoctets = 0, ifoutucastpkts = 0, vj_uncompress_errs = 0,
           delivered = []\<rparr>"

definition put_pbuf :: "u_char list \<Rightarrow> nat \<Rightarrow> ptr \<Rightarrow> sys \<Rightarrow> sys" where
  "put_pbuf area n nxt w =
     w\<lparr>heap := (heap w)(Suc (brk w) := \<lparr>next = nxt, payload = area, tot_len = n, len = n\<rparr>),
       brk := Suc (brk w)\<rparr>"

definition opts4 :: opts where
  "opts4 = \<lparr>PBUF_POOL_BUFSIZE = 4, PPP_MAXIDLEFLAG = 100\<rparr>"

definition pcb_zero :: ppp_pcb where
  "pcb_zero =
     \<lparr>rx = \<lparr>in_accm = [], in_head = NULL, in_tail = NULL, in_protocol = 0,
            in_fcs = 0, in_state = PDIDLE, in_escaped = False\<rparr>,
      out_accm = [], last_xmit = 0, accomp = False, pcomp = False, vj_enabled = False\<rparr>"

definition connected :: ppp_pcb where
  "connected = fst (pppos_connect pcb_zero sys0)"

subsection \<open>The chain a transmit callback builds\<close>

text \<open>
  The state of an output chain under construction: \<open>ps\<close> are its buffers from \<open>head\<close> to
  \<open>tail\<close>, all allocated after the mark \<open>b0\<close> and with a payload area of the pool's size.
\<close>

definition tx_inv :: "opts \<Rightarrow> nat \<Rightarrow> sys \<Rightarrow> ptr \<Rightarrow> ptr \<Rightarrow> ptr list \<Rightarrow> bool" where
  "tx_inv opt b0 w head tail ps \<longleftrightarrow>
     chain (heap w) head ps \<and> ps \<noteq> [] \<and> last ps = tail \<and> distinct ps \<and>
     (\<forall>p \<in> set ps. b0 < p \<and> p \<le> brk w \<and>
         length (payload (heap w p)) = PBUF_POOL_BUFSIZE opt \<and>
         len (heap w p) \<le> PBUF_POOL_BUFSIZE opt)"

text \<open>
  A step of the construction: once the tail is null nothing happens any more; from a
  chain it touches only the store and the allocation counters, leaves the buffers up to
  the mark alone, and either loses the tail (an allocation failed) or appends \<open>out\<close> to
  the data of the chain; while the pool never fails the tail is not lost.
\<close>

definition tx_ext :: "opts \<Rightarrow> nat \<Rightarrow> ptr \<Rightarrow> ptr \<times> sys \<Rightarrow> ptr \<times> sys \<Rightarrow> u_char list \<Rightarrow> bool" where
  "tx_ext opt b0 head s s' out \<longleftrightarrow>
     (fst s = NULL \<longrightarrow> s' = s) \<and>
     (\<forall>ps. tx_inv opt b0 (snd s) head (fst s) ps \<longrightarrow>
        rest (snd s') = rest (snd s) \<and> brk (snd s) \<le> brk (snd s') \<and>
        (\<forall>p. p \<le> b0 \<longrightarrow> heap (snd s') p = heap (snd s) p) \<and>
        (fst s' \<noteq> NULL \<longrightarrow>
           (\<exists>ps'. tx_inv opt b0 (snd s') head (fst s') ps' \<and>
                  chain_data (heap (snd s')) ps' = chain_data (heap (snd s)) ps @ out)) \<and>
        ((\<forall>k. pool (snd s) k) \<longrightarrow> fst s' \<noteq> NULL))"

text \<open>The states of the construction: the tail is lost, or there is a chain.\<close>

definition tx_st :: "opts \<Rightarrow> nat \<Rightarrow> ptr \<Rightarrow> ptr \<times> sys \<Rightarrow> bool" where
  "tx_st opt b0 head s \<longleftrightarrow> fst s = NULL \<or> (\<exists>ps. tx_inv opt b0 (snd s) head (fst s) ps)"

subsection \<open>The frame of the spec\<close>

text \<open>
  The header the netif output callback sends for a protocol number: address and control
  unless ACFC is negotiated, the high byte of the protocol unless PFC is negotiated and
  the number fits in a byte, and always the low byte.
\<close>

definition tx_header :: "ppp_pcb \<Rightarrow> u_short \<Rightarrow> u_char list" where
  "tx_header ppp protocol =
     (if \<not> accomp ppp then [PPP_ALLSTATIONS, PPP_UI] else []) @
     (if \<not> pcomp ppp \<or> protocol > 0xFF then [ucast (drop_bit 8 protocol)] else []) @
     [ucast protocol]"

text \<open>The two bytes of the trailer: the complement of the FCS, low byte first.\<close>

definition fcs_bytes :: "u_int \<Rightarrow> u_char list" where
  "fcs_bytes fcs = [ucast (NOT fcs AND 0xFF), ucast (drop_bit 8 (NOT fcs) AND 0xFF)]"

text \<open>
  The bytes of a frame: an opening flag when the link was idle, the escaped content
  followed by the escaped trailer, and the closing flag, which is not escaped.
\<close>

definition tx_frame :: "bool \<Rightarrow> ext_accm \<Rightarrow> u_char list \<Rightarrow> u_char list" where
  "tx_frame idle accm content =
     (if idle then [PPP_FLAG] else []) @
     escape accm (content @ fcs_bytes (fcs_list PPP_INITFCS content)) @ [PPP_FLAG]"

definition link_idle :: "opts \<Rightarrow> ppp_pcb \<Rightarrow> sys \<Rightarrow> bool" where
  "link_idle opt ppp w \<longleftrightarrow> sys_jiffies w - last_xmit ppp \<ge> PPP_MAXIDLEFLAG opt"

text \<open>A compressor that leaves every packet as it is.\<close>

definition vj_none :: vj_compress where
  "vj_none pb w = (TYPE_IP, w)"

subsection \<open>The shape of an encoded frame\<close>



text \<open>What a transmit callback returned and what is on the wire afterwards.\<close>

definition sent :: "(error + 'r \<times> ppp_pcb \<times> sys) option \<Rightarrow> ('r \<times> u_char list) option" where
  "sent res = (case res of Some (Inr (r, ppp, w)) \<Rightarrow> Some (r, wire w) | _ \<Rightarrow> None)"


subsection \<open>The running FCS of the receiver\<close>

text \<open>The updates of the 16-bit running FCS for a sequence of bytes.\<close>

definition fcs16_list :: "u_short \<Rightarrow> u_char list \<Rightarrow> u_short" where
  "fcs16_list r bs = foldl fcs16 r bs"

subsection \<open>Flags in the receive path\<close>

text \<open>The calls of \<open>pbuf_free\<close> that dropping the current input packet makes.\<close>

definition dropped :: "ppp_pcb_rx \<Rightarrow> ptr list" where
  "dropped pcrx =
     (if in_head pcrx \<noteq> NULL
      then (if in_tail pcrx \<noteq> NULL \<and> in_tail pcrx \<noteq> in_head pcrx then [in_tail pcrx] else [])
           @ [in_head pcrx]
      else [])"

subsection \<open>A short write and the transmission after it\<close>

text \<open>A world at tick 40 with a 4-byte buffer to send on a serial line that takes 3 bytes a
  write.\<close>

definition short_sys :: sys where
  "short_sys = (put_pbuf [1, 2, 3, 4] 4 NULL sys0)\<lparr>sio_cap := (\<lambda>_. 3), jiffies := 40\<rparr>"

subsection \<open>The packet under reception\<close>

text \<open>The two bytes that \<open>pppos_input\<close> writes in front of a packet.\<close>

definition proto_bytes :: "u_short \<Rightarrow> u_char list" where
  "proto_bytes p = [ucast (drop_bit 8 p), ucast (p AND 0xFF)]"

text \<open>
  The buffers of the packet under reception once a data byte is stored: the full buffers
  \<open>cs\<close> already linked from \<open>in_head\<close>, and the open buffer \<open>in_tail\<close>, which is the
  head itself when \<open>cs\<close> is empty and is not yet linked otherwise. Together they hold the
  protocol number and the data bytes \<open>ds\<close>.
\<close>

definition rx_pkt :: "opts \<Rightarrow> sys \<Rightarrow> ppp_pcb_rx \<Rightarrow> ptr list \<Rightarrow> u_char list \<Rightarrow> bool" where
  "rx_pkt opt w pcrx cs ds \<longleftrightarrow>
     in_head pcrx \<noteq> NULL \<and> in_tail pcrx \<noteq> NULL \<and> in_tail pcrx \<le> brk w \<and>
     length (payload (heap w (in_tail pcrx))) = PBUF_POOL_BUFSIZE opt \<and>
     0 < len (heap w (in_tail pcrx)) \<and> len (heap w (in_tail pcrx)) \<le> PBUF_POOL_BUFSIZE opt \<and>
     next (heap w (in_tail pcrx)) = NULL \<and>
     (if cs = [] then in_tail pcrx = in_head pcrx
      else chain (heap w) (in_head pcrx) cs \<and> distinct cs \<and> in_tail pcrx \<notin> set cs \<and>
           (\<forall>p\<in>set cs. p \<le> brk w \<and> length (payload (heap w p)) = PBUF_POOL_BUFSIZE opt \<and>
                        len (heap w p) = PBUF_POOL_BUFSIZE opt) \<and>
           tot_len (heap w (in_head pcrx)) = PBUF_POOL_BUFSIZE opt * length cs) \<and>
     chain_data (heap w) (cs @ [in_tail pcrx]) = proto_bytes (in_protocol pcrx) @ ds \<and> ds \<noteq> []"

definition rx_data :: "opts \<Rightarrow> sys \<Rightarrow> ppp_pcb_rx \<Rightarrow> u_char list \<Rightarrow> bool" where
  "rx_data opt w pcrx ds \<longleftrightarrow>
     (if ds = [] then in_head pcrx = NULL \<and> in_tail pcrx = NULL
      else \<exists>cs. rx_pkt opt w pcrx cs ds)"

text \<open>\<open>pbuf_cat\<close> of a buffer behind a chain it is not part of.\<close>

definition cat_heap :: "(ptr \<Rightarrow> pbuf) \<Rightarrow> ptr list \<Rightarrow> ptr \<Rightarrow> ptr \<Rightarrow> pbuf" where
  "cat_heap h cs t q =
     (if q \<in> set cs
      then (h q)\<lparr>tot_len := tot_len (h q) + tot_len (h t),
                 next := (if q = last cs then t else next (h q))\<rparr>
      else h q)"


subsection \<open>States of the receiver at the closing flag\<close>

text \<open>The state reached from \<open>pppos_connect\<close> by a frame of protocol \<open>0xC021\<close> with the
  payload \<open>09 01 00 04 07\<close>, up to its closing flag, with buffers of 4 bytes.\<close>

definition mid_pcb :: ppp_pcb where
  "mid_pcb = connected\<lparr>rx := (rx connected)\<lparr>in_head := 1, in_tail := 3, in_protocol := 0xC021,
                                             in_fcs := 0xf0b8, in_state := PDDATA\<rparr>\<rparr>"

definition mid_sys :: sys where
  "mid_sys = sys0\<lparr>heap := (heap sys0)
                 (1 := \<lparr>next = 2, payload = [0xc0, 0x21, 9, 1], tot_len = 8, len = 4\<rparr>,
                  2 := \<lparr>next = NULL, payload = [0, 4, 7, 0x56], tot_len = 4, len = 4\<rparr>,
                  3 := \<lparr>next = NULL, payload = [0x19, 0, 0, 0], tot_len = 0, len = 1\<rparr>),
               brk := 3, nalloc := 3\<rparr>"

text \<open>The state after a frame that is one byte long behind its protocol number.\<close>

definition runt_pcb :: ppp_pcb where
  "runt_pcb = connected\<lparr>rx := (rx connected)\<lparr>in_protocol := 0x78, in_fcs := 0xffff,
                                              in_state := PDADDRESS\<rparr>\<rparr>"

definition runt_sys :: sys where
  "runt_sys = sys0\<lparr>heap := (heap sys0)
                  (1 := \<lparr>next = NULL, payload = [0, 0x78, 0xf0, 0], tot_len = 1, len = 1\<rparr>),
                brk := 1, nalloc := 1, delivered := [1]\<rparr>"

subsection \<open>Reception of an encoded frame\<close>


text \<open>
  The receive map is consistent with the transmit map: the receiver recognises the
  escape and the flag, and it marks no character that the sender leaves as it is.
\<close>

definition accm_consistent :: "ext_accm \<Rightarrow> ext_accm \<Rightarrow> bool" where
  "accm_consistent out_map in_map \<longleftrightarrow>
     ESCAPE_P in_map PPP_ESCAPE \<noteq> 0 \<and> ESCAPE_P in_map PPP_FLAG \<noteq> 0 \<and>
     (\<forall>c. ESCAPE_P out_map c = 0 \<longrightarrow> ESCAPE_P in_map c = 0)"





subsection \<open>Senders whose frames the receiver does not take back\<close>

text \<open>A sender whose map also marks \<open>0x5E\<close>, and a sender with address-and-control and
  protocol compression.\<close>

definition tx5e :: ppp_pcb where
  "tx5e = connected\<lparr>out_accm := (replicate 32 0)[11 := 0x40, 15 := 0x60]\<rparr>"



section \<open>Properties\<close>

subsection \<open>Bits of machine words\<close>

lemma lt8E: "n < LENGTH(8) \<Longrightarrow> n \<in> {0, 1, 2, 3} \<or> n \<in> {4, 5, 6, 7::nat}"
  by simp arith

lemma lt16E: "n < LENGTH(16) \<Longrightarrow> n < LENGTH(8) \<or> n \<in> {8, 9, 10, 11} \<or> n \<in> {12, 13, 14, 15::nat}"
  by simp arith

lemma lt32E:
  "n < LENGTH(32) \<Longrightarrow>
   n < LENGTH(16) \<or> n \<in> {16, 17, 18, 19} \<or> n \<in> {20, 21, 22, 23} \<or> n \<in> {24, 25, 26, 27}
   \<or> n \<in> {28, 29, 30, 31::nat}"
  by simp arith

lemma unat_ucast_u8_u32: "unat (ucast (x::u_char) :: u_int) = unat x"
proof -
  have "unat x < 2 ^ 8" using unsigned_less [of x] by simp
  then have "unat x < 2 ^ 32" by simp
  then show ?thesis by (simp add: unsigned_ucast_eq take_bit_nat_eq_self)
qed

lemma low_byte_u32: "(x::u_int) AND 0xff = ucast (ucast x :: u_char)"
  apply (rule bit_word_eqI)
  apply (drule lt32E)
  apply (elim disjE insertE emptyE | drule lt16E | drule lt8E)+
  apply (auto simp add: bit_simps dest: bit_imp_le_length)
  done

subsection \<open>The table and the bitwise computation of the FCS\<close>

lemma fcstab_eq: "map ppp_get_fcs (map of_nat [0..<256]) = fcstab"
  by code_simp

lemma fcstab_nth: "fcstab ! unat (i::u_char) = ppp_get_fcs i"
proof -
  have lt: "unat i < 256" using unsigned_less [of i] by simp
  have "fcstab ! unat i = map ppp_get_fcs (map of_nat [0..<256]) ! unat i"
    by (simp only: fcstab_eq)
  also have "\<dots> = ppp_get_fcs (of_nat (unat i))"
    using lt by (simp del: upt_Suc)
  finally show ?thesis by simp
qed

lemma PPP_FCS_table_index:
  "PPP_FCS f c = drop_bit 8 f XOR ucast (fcstab ! unat (ucast (f XOR ucast c) :: u_char))"
  unfolding PPP_FCS_def low_byte_u32 unat_ucast_u8_u32 ..

text \<open>
  C9. Every entry of the table is the value that \<open>ppp_get_fcs\<close> computes for its index,
  and so the two variants of the \<open>PPP_FCS\<close> macro agree on every running value (of
  which the 16-bit ones are a part) and every byte.
\<close>

theorem fcs_table_is_bitwise:
  "fcstab ! unat (i::u_char) = ppp_get_fcs i \<and> PPP_FCS f c = PPP_FCS_compact f c"
proof
  show "fcstab ! unat i = ppp_get_fcs i" by (rule fcstab_nth)
  have "ucast (ucast (ucast (f XOR ucast c) :: u_char) :: u_int) = (ucast (f XOR ucast c) :: u_char)"
    by (rule bit_word_eqI) (auto simp add: bit_simps)
  then show "PPP_FCS f c = PPP_FCS_compact f c"
    unfolding PPP_FCS_table_index PPP_FCS_compact_def low_byte_u32
    by (simp only: fcstab_nth)
qed

subsection \<open>pppos_append\<close>

lemma pbuf_data_store:
  "len b < length (payload b) \<Longrightarrow>
   pbuf_data (b\<lparr>payload := (payload b)[len b := x], len := Suc (len b)\<rparr>) = pbuf_data b @ [x]"
  by (simp add: pbuf_data_def take_Suc_conv_app_nth)

lemma heap_store_byte:
  "heap (store_byte nb x w) =
   (heap w)(nb := (heap w nb)\<lparr>payload := (payload (heap w nb))[len (heap w nb) := x],
                              len := Suc (len (heap w nb))\<rparr>)"
  by (simp add: store_byte_def)

lemma store_byte_data:
  "len (heap w nb) < length (payload (heap w nb)) \<Longrightarrow>
   pbuf_data (heap (store_byte nb x w) nb) = pbuf_data (heap w nb) @ [x]"
  by (simp add: heap_store_byte pbuf_data_store)

lemma store_byte_other: "p \<noteq> nb \<Longrightarrow> heap (store_byte nb x w) p = heap w p"
  by (simp add: heap_store_byte)

lemma store_byte_fields:
  "next (heap (store_byte nb x w) p) = next (heap w p)"
  "tot_len (heap (store_byte nb x w) p) = tot_len (heap w p)"
  "length (payload (heap (store_byte nb x w) p)) = length (payload (heap w p))"
  "len (heap (store_byte nb x w) nb) = Suc (len (heap w nb))"
  by (simp_all add: heap_store_byte)

lemma store_insertion_data:
  "len (heap w nb) + 2 \<le> length (payload (heap w nb)) \<Longrightarrow>
   pbuf_data (heap (store_insertion nb accm_opt c w) nb) = pbuf_data (heap w nb) @ insertion accm_opt c"
  by (cases accm_opt)
     (simp_all add: store_insertion_def insertion_def esc_def store_byte_data store_byte_fields)

lemma store_insertion_other: "p \<noteq> nb \<Longrightarrow> heap (store_insertion nb accm_opt c w) p = heap w p"
  by (simp add: store_insertion_def store_byte_other)

lemma store_insertion_fields:
  "next (heap (store_insertion nb accm_opt c w) p) = next (heap w p)"
  "tot_len (heap (store_insertion nb accm_opt c w) p) = tot_len (heap w p)"
  "length (payload (heap (store_insertion nb accm_opt c w) p)) = length (payload (heap w p))"
  by (simp_all add: store_insertion_def store_byte_fields)

lemma store_insertion_len:
  "len (heap (store_insertion nb accm_opt c w) nb) = len (heap w nb) + length (insertion accm_opt c)"
  by (cases accm_opt)
     (simp_all add: store_insertion_def insertion_def esc_def store_byte_fields)

lemma store_insertion_rest:
  "store_insertion nb accm_opt c w = w\<lparr>heap := heap (store_insertion nb accm_opt c w)\<rparr>"
  by (simp add: store_insertion_def store_byte_def)

lemma pppos_append_room:
  "nb \<noteq> NULL \<Longrightarrow> \<not> int (PBUF_POOL_BUFSIZE opt) - int (len (heap w nb)) < 2 \<Longrightarrow>
   pppos_append opt c nb accm_opt w = (nb, store_insertion nb accm_opt c w)"
  by (simp add: pppos_append_def store_insertion_def)

lemma rest_fields:
  assumes "rest w' = rest w"
  shows "pool w' = pool w" "freed w' = freed w" "wire w' = wire w" "sio_cap w' = sio_cap w"
    "sio_calls w' = sio_calls w" "jiffies w' = jiffies w"
    "link_proterr w' = link_proterr w" "link_drop w' = link_drop w" "link_lenerr w' = link_lenerr w"
    "link_chkerr w' = link_chkerr w" "link_err w' = link_err w" "link_xmit w' = link_xmit w"
    "ifoutdiscards w' = ifoutdiscards w" "ifindiscards w' = ifindiscards w"
    "ifoutoctets w' = ifoutoctets w" "ifoutucastpkts w' = ifoutucastpkts w"
    "vj_uncompress_errs w' = vj_uncompress_errs w" "delivered w' = delivered w"
proof -
  show "pool w' = pool w" using arg_cong [OF assms, of pool] by (simp add: rest_def)
  show "freed w' = freed w" using arg_cong [OF assms, of freed] by (simp add: rest_def)
  show "wire w' = wire w" using arg_cong [OF assms, of wire] by (simp add: rest_def)
  show "sio_cap w' = sio_cap w" using arg_cong [OF assms, of sio_cap] by (simp add: rest_def)
  show "sio_calls w' = sio_calls w" using arg_cong [OF assms, of sio_calls] by (simp add: rest_def)
  show "jiffies w' = jiffies w" using arg_cong [OF assms, of jiffies] by (simp add: rest_def)
  show "link_proterr w' = link_proterr w" using arg_cong [OF assms, of link_proterr] by (simp add: rest_def)
  show "link_drop w' = link_drop w" using arg_cong [OF assms, of link_drop] by (simp add: rest_def)
  show "link_lenerr w' = link_lenerr w" using arg_cong [OF assms, of link_lenerr] by (simp add: rest_def)
  show "link_chkerr w' = link_chkerr w" using arg_cong [OF assms, of link_chkerr] by (simp add: rest_def)
  show "link_err w' = link_err w" using arg_cong [OF assms, of link_err] by (simp add: rest_def)
  show "link_xmit w' = link_xmit w" using arg_cong [OF assms, of link_xmit] by (simp add: rest_def)
  show "ifoutdiscards w' = ifoutdiscards w" using arg_cong [OF assms, of ifoutdiscards] by (simp add: rest_def)
  show "ifindiscards w' = ifindiscards w" using arg_cong [OF assms, of ifindiscards] by (simp add: rest_def)
  show "ifoutoctets w' = ifoutoctets w" using arg_cong [OF assms, of ifoutoctets] by (simp add: rest_def)
  show "ifoutucastpkts w' = ifoutucastpkts w" using arg_cong [OF assms, of ifoutucastpkts] by (simp add: rest_def)
  show "vj_uncompress_errs w' = vj_uncompress_errs w" using arg_cong [OF assms, of vj_uncompress_errs] by (simp add: rest_def)
  show "delivered w' = delivered w" using arg_cong [OF assms, of delivered] by (simp add: rest_def)
qed

lemma rest_store_byte [simp]: "rest (store_byte nb x w) = rest w"
  by (simp add: rest_def store_byte_def)

lemma rest_store_insertion [simp]: "rest (store_insertion nb a c w) = rest w"
  by (simp add: store_insertion_def)

lemma rest_link_next [simp]: "rest (link_next nb tb w) = rest w"
  by (simp add: rest_def link_next_def)

lemma brk_store_insertion [simp]: "brk (store_insertion nb a c w) = brk w"
  "nalloc (store_insertion nb a c w) = nalloc w"
  by (simp_all add: store_insertion_def store_byte_def)

lemma pbuf_alloc_ok:
  "pool w (nalloc w) \<Longrightarrow>
   pbuf_alloc opt w = (Suc (brk w), w\<lparr>heap := (heap w)(Suc (brk w) := fresh_pbuf opt),
                                        brk := Suc (brk w), nalloc := Suc (nalloc w)\<rparr>)"
  by (simp add: pbuf_alloc_def fresh_pbuf_def)

lemma pbuf_alloc_fail:
  "\<not> pool w (nalloc w) \<Longrightarrow> pbuf_alloc opt w = (NULL, w\<lparr>nalloc := Suc (nalloc w)\<rparr>)"
  by (simp add: pbuf_alloc_def)

lemma rest_pbuf_alloc [simp]: "rest (snd (pbuf_alloc opt w)) = rest w"
  by (simp add: pbuf_alloc_def rest_def)

lemma pppos_append_grow:
  "nb \<noteq> NULL \<Longrightarrow> int (PBUF_POOL_BUFSIZE opt) - int (len (heap w nb)) < 2 \<Longrightarrow> pool w (nalloc w) \<Longrightarrow>
   pppos_append opt c nb accm_opt w =
     (Suc (brk w),
      store_insertion (Suc (brk w)) accm_opt c (link_next nb (Suc (brk w)) (snd (pbuf_alloc opt w))))"
  by (simp add: pppos_append_def store_insertion_def pbuf_alloc_def link_next_def)

lemma pppos_append_fail:
  "nb \<noteq> NULL \<Longrightarrow> int (PBUF_POOL_BUFSIZE opt) - int (len (heap w nb)) < 2 \<Longrightarrow> \<not> pool w (nalloc w) \<Longrightarrow>
   pppos_append opt c nb accm_opt w =
     (NULL, w\<lparr>nalloc := Suc (nalloc w), link_memerr := Suc (link_memerr w)\<rparr>)"
  by (simp add: pppos_append_def pbuf_alloc_def)

lemma pppos_append_null:
  "pppos_append opt c NULL accm_opt w = (NULL, w)"
  by (simp add: pppos_append_def)

lemma rest_append_fail [simp]:
  "rest (w\<lparr>nalloc := n, link_memerr := m\<rparr>) = rest w"
  by (simp add: rest_def)

lemma heap_grow:
  "pool w (nalloc w) \<Longrightarrow>
   heap (link_next nb (Suc (brk w)) (snd (pbuf_alloc opt w))) =
     (heap w)(Suc (brk w) := fresh_pbuf opt,
              nb := ((heap w)(Suc (brk w) := fresh_pbuf opt)) nb \<lparr>next := Suc (brk w)\<rparr>)"
  by (simp add: pbuf_alloc_ok link_next_def)

lemma brk_grow:
  "pool w (nalloc w) \<Longrightarrow> brk (link_next nb tb (snd (pbuf_alloc opt w))) = Suc (brk w)"
  by (simp add: pbuf_alloc_ok link_next_def)

lemma pbuf_data_fresh [simp]: "pbuf_data (fresh_pbuf opt) = []"
  by (simp add: pbuf_data_def fresh_pbuf_def)

lemma fresh_fields [simp]: "len (fresh_pbuf opt) = 0" "next (fresh_pbuf opt) = NULL"
  "length (payload (fresh_pbuf opt)) = PBUF_POOL_BUFSIZE opt" "tot_len (fresh_pbuf opt) = 0"
  by (simp_all add: fresh_pbuf_def)

text \<open>
  C5. A call of \<open>pppos_append\<close> on a buffer \<open>nb\<close> of the pool (non-null, allocated,
  with a payload area of \<open>PBUF_POOL_BUFSIZE\<close> \<ge> 2 bytes). If fewer than two bytes are free
  and the pool has a buffer, a new buffer is allocated, linked as \<open>nb->next\<close> and returned,
  and it holds exactly the logical insertion (the two bytes \<open>0x7D\<close>, \<open>c XOR 0x20\<close> when
  a map is given and marks \<open>c\<close>, else the byte \<open>c\<close>), so that an escape pair is never
  split. If fewer than two bytes are free and the allocation fails, the result is the null
  pointer and nothing is stored. Otherwise the insertion is stored behind the data of
  \<open>nb\<close>, which is returned.
\<close>

theorem pppos_append_semantics:
  assumes "nb \<noteq> NULL" and "nb \<le> brk w" and "2 \<le> PBUF_POOL_BUFSIZE opt"
    and "length (payload (heap w nb)) = PBUF_POOL_BUFSIZE opt"
  shows
    "(int (PBUF_POOL_BUFSIZE opt) - int (len (heap w nb)) < 2 \<and> pool w (nalloc w) \<longrightarrow>
        (case pppos_append opt c nb accm_opt w of (tb, w') \<Rightarrow>
           tb = Suc (brk w) \<and> tb \<noteq> NULL \<and> brk w' = Suc (brk w) \<and> next (heap w' nb) = tb
           \<and> pbuf_data (heap w' tb) = insertion accm_opt c
           \<and> pbuf_data (heap w' nb) = pbuf_data (heap w nb)
           \<and> (\<forall>p. p \<noteq> nb \<and> p \<noteq> tb \<longrightarrow> heap w' p = heap w p)))
   \<and> (int (PBUF_POOL_BUFSIZE opt) - int (len (heap w nb)) < 2 \<and> \<not> pool w (nalloc w) \<longrightarrow>
        (case pppos_append opt c nb accm_opt w of (tb, w') \<Rightarrow>
           tb = NULL \<and> heap w' = heap w \<and> brk w' = brk w))
   \<and> (\<not> int (PBUF_POOL_BUFSIZE opt) - int (len (heap w nb)) < 2 \<longrightarrow>
        (case pppos_append opt c nb accm_opt w of (tb, w') \<Rightarrow>
           tb = nb \<and> brk w' = brk w
           \<and> pbuf_data (heap w' nb) = pbuf_data (heap w nb) @ insertion accm_opt c
           \<and> next (heap w' nb) = next (heap w nb)
           \<and> (\<forall>p. p \<noteq> nb \<longrightarrow> heap w' p = heap w p)))"
proof (intro conjI impI)
  assume a: "int (PBUF_POOL_BUFSIZE opt) - int (len (heap w nb)) < 2 \<and> pool w (nalloc w)"
  define tb where "tb = Suc (brk w)"
  define w1 where "w1 = link_next nb tb (snd (pbuf_alloc opt w))"
  have nb: "nb \<noteq> tb" using assms(2) by (simp add: tb_def)
  have h1: "heap w1 = (heap w)(tb := fresh_pbuf opt, nb := (heap w nb)\<lparr>next := tb\<rparr>)"
    using a nb by (simp add: w1_def tb_def heap_grow)
  have "pbuf_data (heap (store_insertion tb accm_opt c w1) tb)
        = pbuf_data (heap w1 tb) @ insertion accm_opt c"
    by (rule store_insertion_data) (use nb assms(3) in \<open>simp add: h1\<close>)
  then have d: "pbuf_data (heap (store_insertion tb accm_opt c w1) tb) = insertion accm_opt c"
    using nb by (simp add: h1)
  have e: "pppos_append opt c nb accm_opt w = (tb, store_insertion tb accm_opt c w1)"
    using a assms(1) by (simp add: pppos_append_grow tb_def w1_def)
  have b: "brk w1 = Suc (brk w)" using a by (simp add: w1_def brk_grow)
  show "case pppos_append opt c nb accm_opt w of (tb, w') \<Rightarrow>
           tb = Suc (brk w) \<and> tb \<noteq> NULL \<and> brk w' = Suc (brk w) \<and> next (heap w' nb) = tb
           \<and> pbuf_data (heap w' tb) = insertion accm_opt c
           \<and> pbuf_data (heap w' nb) = pbuf_data (heap w nb)
           \<and> (\<forall>p. p \<noteq> nb \<and> p \<noteq> tb \<longrightarrow> heap w' p = heap w p)"
    unfolding e using nb d b
    by (simp add: store_insertion_other store_insertion_fields h1 pbuf_data_def tb_def)
next
  assume a: "int (PBUF_POOL_BUFSIZE opt) - int (len (heap w nb)) < 2 \<and> \<not> pool w (nalloc w)"
  then show "case pppos_append opt c nb accm_opt w of (tb, w') \<Rightarrow>
           tb = NULL \<and> heap w' = heap w \<and> brk w' = brk w"
    using assms(1) by (simp add: pppos_append_fail)
next
  assume a: "\<not> int (PBUF_POOL_BUFSIZE opt) - int (len (heap w nb)) < 2"
  then have "len (heap w nb) + 2 \<le> length (payload (heap w nb))" using assms(4) by simp
  then have "pbuf_data (heap (store_insertion nb accm_opt c w) nb) = pbuf_data (heap w nb) @ insertion accm_opt c"
    by (rule store_insertion_data)
  then show "case pppos_append opt c nb accm_opt w of (tb, w') \<Rightarrow>
           tb = nb \<and> brk w' = brk w
           \<and> pbuf_data (heap w' nb) = pbuf_data (heap w nb) @ insertion accm_opt c
           \<and> next (heap w' nb) = next (heap w nb)
           \<and> (\<forall>p. p \<noteq> nb \<longrightarrow> heap w' p = heap w p)"
    using a assms(1)
    by (simp add: pppos_append_room store_insertion_other store_insertion_fields)
qed

lemma connected_eq:
  "connected =
     \<lparr>rx = \<lparr>in_accm = (replicate 32 0)[15 := 0x60], in_head = NULL, in_tail = NULL, in_protocol = 0,
            in_fcs = 0, in_state = PDIDLE, in_escaped = False\<rparr>,
      out_accm = (replicate 32 0)[15 := 0x60], last_xmit = 0, accomp = False, pcomp = False,
      vj_enabled = False\<rparr>"
  by (simp add: connected_def pppos_connect_def pppos_free_current_input_packet_def pcb_zero_def
        ppp_clear_def)

lemma escape_p_flag: "ESCAPE_P ((replicate 32 0)[15 := 0x60]) 0x7e = 0x40"
  by code_simp

theorem pppos_append_semantics_witness:
  "case pppos_append opts4 0x7e 1 (Some (out_accm connected)) (put_pbuf [1, 2, 3, 0] 3 NULL sys0) of
     (tb, w') \<Rightarrow> tb = 2 \<and> next (heap w' 1) = 2 \<and> pbuf_data (heap w' 2) = [0x7d, 0x5e]
                 \<and> pbuf_data (heap w' 1) = [1, 2, 3]"
proof -
  let ?w = "put_pbuf [1, 2, 3, 0] 3 NULL sys0"
  have ins: "insertion (Some (out_accm connected)) 0x7e = [0x7d, 0x5e]"
    by (simp add: insertion_def esc_def connected_eq escape_p_flag PPP_ESCAPE_def PPP_TRANS_def)
  have a: "(1::nat) \<noteq> NULL" "1 \<le> brk ?w" "2 \<le> PBUF_POOL_BUFSIZE opts4"
    "length (payload (heap ?w 1)) = PBUF_POOL_BUFSIZE opts4"
    by (simp_all add: put_pbuf_def sys0_def opts4_def)
  have b: "int (PBUF_POOL_BUFSIZE opts4) - int (len (heap ?w 1)) < 2 \<and> pool ?w (nalloc ?w)"
    by (simp add: put_pbuf_def sys0_def opts4_def)
  have c: "Suc (brk ?w) = 2" "pbuf_data (heap ?w (Suc 0)) = [1, 2, 3]"
    by (simp_all add: put_pbuf_def sys0_def pbuf_data_def)
  from pppos_append_semantics [OF a, where c = "0x7e" and accm_opt = "Some (out_accm connected)",
      THEN conjunct1, rule_format, OF b]
  show ?thesis by (simp add: ins c split: prod.splits)
qed

lemma chain_next_cong:
  "(\<And>q. q \<in> set ps \<Longrightarrow> next (h' q) = next (h q)) \<Longrightarrow> chain h' p ps = chain h p ps"
  by (induction ps arbitrary: p) auto

lemma chain_not_null: "chain h p ps \<Longrightarrow> NULL \<notin> set ps"
  by (induction ps arbitrary: p) auto

lemma chain_snoc:
  "chain h p ps \<Longrightarrow> ps \<noteq> [] \<Longrightarrow> t \<notin> set ps \<Longrightarrow> t \<noteq> NULL \<Longrightarrow> distinct ps \<Longrightarrow>
   next (h' t) = NULL \<Longrightarrow> next (h' (last ps)) = t \<Longrightarrow>
   (\<And>q. q \<in> set (butlast ps) \<Longrightarrow> next (h' q) = next (h q)) \<Longrightarrow>
   chain h' p (ps @ [t])"
proof (induction ps arbitrary: p)
  case Nil
  then show ?case by simp
next
  case (Cons a ps)
  show ?case
  proof (cases "ps = []")
    case True
    with Cons.prems show ?thesis by simp
  next
    case False
    with Cons.prems have "next (h' a) = next (h a)" by simp
    moreover have "chain h' (next (h a)) (ps @ [t])"
      using Cons.prems False by (intro Cons.IH) auto
    ultimately show ?thesis using Cons.prems by simp
  qed
qed

lemma chain_data_cong:
  "(\<And>q. q \<in> set ps \<Longrightarrow> pbuf_data (h' q) = pbuf_data (h q)) \<Longrightarrow> chain_data h' ps = chain_data h ps"
  by (induction ps) (auto simp: chain_data_def)

lemma chain_data_snoc: "chain_data h (ps @ [t]) = chain_data h ps @ pbuf_data (h t)"
  by (simp add: chain_data_def)

lemma chain_data_last:
  assumes "ps \<noteq> []" "distinct ps"
    and "pbuf_data (h' (last ps)) = pbuf_data (h (last ps)) @ out"
    and "\<And>q. q \<in> set (butlast ps) \<Longrightarrow> pbuf_data (h' q) = pbuf_data (h q)"
  shows "chain_data h' ps = chain_data h ps @ out"
proof -
  have ps: "ps = butlast ps @ [last ps]" using assms(1) by simp
  have "chain_data h' (butlast ps @ [last ps]) = chain_data h (butlast ps @ [last ps]) @ out"
    unfolding chain_data_snoc using assms(3) chain_data_cong [of "butlast ps" h' h, OF assms(4)]
    by simp
  with ps show ?thesis by simp
qed

lemma in_butlast_neq_last: "distinct ps \<Longrightarrow> q \<in> set (butlast ps) \<Longrightarrow> q \<noteq> last ps"
  by (metis append_butlast_last_id butlast.simps(1) distinct_butlast empty_iff empty_set
      not_distinct_conv_prefix)

lemma insertion_length: "length (insertion a c) \<le> 2" "insertion a c \<noteq> []"
  by (cases a; simp add: insertion_def esc_def)+

lemma tx_inv_tail: "tx_inv opt b0 w head tail ps \<Longrightarrow> tail \<in> set ps \<and> tail \<noteq> NULL \<and> b0 < tail \<and> tail \<le> brk w"
proof -
  assume inv: "tx_inv opt b0 w head tail ps"
  then have "tail \<in> set ps" using last_in_set [of ps] by (auto simp: tx_inv_def)
  moreover have "NULL \<notin> set ps" using inv chain_not_null [of "heap w" head ps] by (simp add: tx_inv_def)
  ultimately show ?thesis using inv by (auto simp: tx_inv_def)
qed

lemma append_room_ext:
  assumes room: "\<not> int (PBUF_POOL_BUFSIZE opt) - int (len (heap w tail)) < 2"
    and inv: "tx_inv opt b0 w head tail ps"
  shows "tx_inv opt b0 (store_insertion tail a c w) head tail ps"
    and "chain_data (heap (store_insertion tail a c w)) ps = chain_data (heap w) ps @ insertion a c"
    and "p \<le> b0 \<Longrightarrow> heap (store_insertion tail a c w) p = heap w p"
proof -
  let ?w' = "store_insertion tail a c w"
  from inv have t: "last ps = tail" "ps \<noteq> []" "distinct ps"
    by (auto simp: tx_inv_def)
  note tl = tx_inv_tail [OF inv]
  have cap: "len (heap w tail) + 2 \<le> length (payload (heap w tail))"
    using inv room tl by (auto simp: tx_inv_def)
  have "len (heap ?w' tail) \<le> PBUF_POOL_BUFSIZE opt"
    using room insertion_length(1) [of a c] by (simp add: store_insertion_len)
  moreover have "len (heap ?w' p) = len (heap w p)" if "p \<noteq> tail" for p
    using that by (simp add: store_insertion_other)
  ultimately have lens: "\<forall>p\<in>set ps. len (heap ?w' p) \<le> PBUF_POOL_BUFSIZE opt"
  proof (intro ballI)
    fix p assume p: "p \<in> set ps"
    assume a: "len (heap ?w' tail) \<le> PBUF_POOL_BUFSIZE opt"
      and b: "\<And>p. p \<noteq> tail \<Longrightarrow> len (heap ?w' p) = len (heap w p)"
    show "len (heap ?w' p) \<le> PBUF_POOL_BUFSIZE opt"
    proof (cases "p = tail")
      case True
      with a show ?thesis by simp
    next
      case False
      with b [of p] p inv show ?thesis by (simp add: tx_inv_def)
    qed
  qed
  show "tx_inv opt b0 ?w' head tail ps"
    using inv lens
    by (simp add: tx_inv_def store_insertion_fields chain_next_cong [of ps "heap ?w'" "heap w"])
  show "chain_data (heap ?w') ps = chain_data (heap w) ps @ insertion a c"
    using t cap
    by (intro chain_data_last)
       (auto simp: store_insertion_data store_insertion_other dest: in_butlast_neq_last)
  show "heap ?w' p = heap w p" if "p \<le> b0"
    using that tl by (simp add: store_insertion_other)
qed

lemma append_grow_ext:
  fixes a :: "ext_accm option" and c :: u_char
  assumes pool: "pool w (nalloc w)" and big: "2 \<le> PBUF_POOL_BUFSIZE opt"
    and inv: "tx_inv opt b0 w head tail ps"
  defines "tb \<equiv> Suc (brk w)"
  defines "w' \<equiv> store_insertion tb a c (link_next tail tb (snd (pbuf_alloc opt w)))"
  shows "tx_inv opt b0 w' head tb (ps @ [tb])"
    and "chain_data (heap w') (ps @ [tb]) = chain_data (heap w) ps @ insertion a c"
    and "p \<le> b0 \<Longrightarrow> heap w' p = heap w p"
    and "brk w' = Suc (brk w)"
proof -
  let ?w1 = "link_next tail tb (snd (pbuf_alloc opt w))"
  from inv have t: "last ps = tail" "ps \<noteq> []" "distinct ps" "chain (heap w) head ps"
    by (auto simp: tx_inv_def)
  note tl = tx_inv_tail [OF inv]
  have ne: "tail \<noteq> tb" using tl by (simp add: tb_def)
  have notin: "tb \<notin> set ps" using inv by (auto simp: tx_inv_def tb_def)
  have h1: "heap ?w1 = (heap w)(tb := fresh_pbuf opt, tail := (heap w tail)\<lparr>next := tb\<rparr>)"
    using pool ne by (simp add: tb_def heap_grow)
  have b1: "brk ?w1 = Suc (brk w)" using pool by (simp add: brk_grow)
  have other: "heap w' q = heap w q" if "q \<noteq> tb" "q \<noteq> tail" for q
    using that by (simp add: w'_def store_insertion_other h1)
  have tailh: "heap w' tail = (heap w tail)\<lparr>next := tb\<rparr>"
    using ne by (simp add: w'_def store_insertion_other h1)
  have dtb: "pbuf_data (heap w' tb) = insertion a c"
    using store_insertion_data [of ?w1 tb a c] ne big by (simp add: w'_def h1)
  have ltb: "len (heap w' tb) \<le> PBUF_POOL_BUFSIZE opt"
    using insertion_length(1) [of a c] ne big by (simp add: w'_def store_insertion_len h1)
  have ptb: "length (payload (heap w' tb)) = PBUF_POOL_BUFSIZE opt"
    using ne by (simp add: w'_def store_insertion_fields h1)
  have ntb: "next (heap w' tb) = NULL"
    using ne by (simp add: w'_def store_insertion_fields h1)
  show bw: "brk w' = Suc (brk w)" by (simp add: w'_def b1)
  have same: "len (heap w' q) = len (heap w q) \<and> payload (heap w' q) = payload (heap w q)
              \<and> pbuf_data (heap w' q) = pbuf_data (heap w q)" if "q \<in> set ps" for q
  proof (cases "q = tail")
    case True
    then show ?thesis by (simp add: tailh pbuf_data_def)
  next
    case False
    moreover have "q \<noteq> tb" using that notin by auto
    ultimately show ?thesis by (simp add: other)
  qed
  have ch: "chain (heap w') head (ps @ [tb])"
  proof (rule chain_snoc [OF t(4) t(2) notin _ t(3)])
    show "tb \<noteq> NULL" by (simp add: tb_def)
    show "next (heap w' tb) = NULL" by (rule ntb)
    show "next (heap w' (last ps)) = tb" by (simp add: t(1) tailh)
    show "next (heap w' q) = next (heap w q)" if "q \<in> set (butlast ps)" for q
    proof -
      have "q \<noteq> tail" using in_butlast_neq_last [OF t(3) that] t(1) by simp
      moreover have "q \<noteq> tb" using that notin by (auto dest: in_set_butlastD)
      ultimately show ?thesis by (simp add: other)
    qed
  qed
  show "tx_inv opt b0 w' head tb (ps @ [tb])"
    unfolding tx_inv_def
  proof (intro conjI ballI)
    show "chain (heap w') head (ps @ [tb])" by (rule ch)
    show "ps @ [tb] \<noteq> []" by simp
    show "last (ps @ [tb]) = tb" by simp
    show "distinct (ps @ [tb])" using t(3) notin by simp
  next
    fix q assume "q \<in> set (ps @ [tb])"
    then consider "q = tb" | "q \<in> set ps" by auto
    then show "b0 < q" using tl inv by cases (auto simp: tb_def tx_inv_def)
  next
    fix q assume "q \<in> set (ps @ [tb])"
    then consider "q = tb" | "q \<in> set ps" by auto
    then show "q \<le> brk w'" using inv by cases (auto simp: tb_def tx_inv_def bw)
  next
    fix q assume "q \<in> set (ps @ [tb])"
    then consider "q = tb" | "q \<in> set ps" by auto
    then show "length (payload (heap w' q)) = PBUF_POOL_BUFSIZE opt"
      using inv ptb same by cases (auto simp: tx_inv_def)
  next
    fix q assume "q \<in> set (ps @ [tb])"
    then consider "q = tb" | "q \<in> set ps" by auto
    then show "len (heap w' q) \<le> PBUF_POOL_BUFSIZE opt"
      using inv ltb same by cases (auto simp: tx_inv_def)
  qed
  show "chain_data (heap w') (ps @ [tb]) = chain_data (heap w) ps @ insertion a c"
    unfolding chain_data_snoc dtb using chain_data_cong [of ps "heap w'" "heap w"] same by simp
  show "heap w' p = heap w p" if "p \<le> b0"
    using that tl other [of p] by (simp add: tb_def)
qed

lemma append_ext:
  assumes big: "2 \<le> PBUF_POOL_BUFSIZE opt"
  shows "tx_ext opt b0 head (tail, w) (pppos_append opt c tail a w) (insertion a c)"
proof -
  have null: "fst (tail, w) = NULL \<longrightarrow> pppos_append opt c tail a w = (tail, w)"
    by (simp add: pppos_append_null)
  have "rest (snd (pppos_append opt c tail a w)) = rest (snd (tail, w)) \<and>
        brk (snd (tail, w)) \<le> brk (snd (pppos_append opt c tail a w)) \<and>
        (\<forall>p. p \<le> b0 \<longrightarrow> heap (snd (pppos_append opt c tail a w)) p = heap (snd (tail, w)) p) \<and>
        (fst (pppos_append opt c tail a w) \<noteq> NULL \<longrightarrow>
           (\<exists>ps'. tx_inv opt b0 (snd (pppos_append opt c tail a w)) head
                    (fst (pppos_append opt c tail a w)) ps' \<and>
                  chain_data (heap (snd (pppos_append opt c tail a w))) ps'
                    = chain_data (heap (snd (tail, w))) ps @ insertion a c)) \<and>
        ((\<forall>k. pool (snd (tail, w)) k) \<longrightarrow> fst (pppos_append opt c tail a w) \<noteq> NULL)"
    if "tx_inv opt b0 (snd (tail, w)) head (fst (tail, w)) ps" for ps
  proof -
  from that have inv: "tx_inv opt b0 w head tail ps" by simp
  note tl = tx_inv_tail [OF inv]
  let ?s' = "pppos_append opt c tail a w"
  show "rest (snd ?s') = rest (snd (tail, w)) \<and> brk (snd (tail, w)) \<le> brk (snd ?s') \<and>
        (\<forall>p. p \<le> b0 \<longrightarrow> heap (snd ?s') p = heap (snd (tail, w)) p) \<and>
        (fst ?s' \<noteq> NULL \<longrightarrow>
           (\<exists>ps'. tx_inv opt b0 (snd ?s') head (fst ?s') ps' \<and>
                  chain_data (heap (snd ?s')) ps' = chain_data (heap (snd (tail, w))) ps @ insertion a c)) \<and>
        ((\<forall>k. pool (snd (tail, w)) k) \<longrightarrow> fst ?s' \<noteq> NULL)"
  proof (cases "int (PBUF_POOL_BUFSIZE opt) - int (len (heap w tail)) < 2")
    case False
    have e: "?s' = (tail, store_insertion tail a c w)"
      using tl False by (simp add: pppos_append_room)
    show ?thesis
      unfolding e using append_room_ext [OF False inv, where a = a and c = c] tl
      by auto
  next
    case True
    show ?thesis
    proof (cases "pool w (nalloc w)")
      case pl: True
      let ?tb = "Suc (brk w)"
      let ?w' = "store_insertion ?tb a c (link_next tail ?tb (snd (pbuf_alloc opt w)))"
      have e: "?s' = (?tb, ?w')"
        using tl True pl by (simp add: pppos_append_grow)
      have r: "rest ?w' = rest w" by simp
      show ?thesis
        unfolding e using append_grow_ext [OF pl big inv, where a = a and c = c] r
        by auto
    next
      case False
      have e: "?s' = (NULL, w\<lparr>nalloc := Suc (nalloc w), link_memerr := Suc (link_memerr w)\<rparr>)"
        using tl True False by (simp add: pppos_append_fail)
      show ?thesis
        unfolding e using False by auto
    qed
  qed
  qed
  with null show ?thesis unfolding tx_ext_def by blast
qed

lemma tx_ext_trans:
  assumes 1: "tx_ext opt b0 head s s' out" and 2: "tx_ext opt b0 head s' s'' out'"
  shows "tx_ext opt b0 head s s'' (out @ out')"
proof -
  have null: "fst s = NULL \<longrightarrow> s'' = s"
  proof
    assume n: "fst s = NULL"
    with 1 have "s' = s" by (simp add: tx_ext_def)
    with 2 n show "s'' = s" by (simp add: tx_ext_def)
  qed
  have "rest (snd s'') = rest (snd s) \<and> brk (snd s) \<le> brk (snd s'') \<and>
        (\<forall>p. p \<le> b0 \<longrightarrow> heap (snd s'') p = heap (snd s) p) \<and>
        (fst s'' \<noteq> NULL \<longrightarrow>
           (\<exists>ps'. tx_inv opt b0 (snd s'') head (fst s'') ps' \<and>
                  chain_data (heap (snd s'')) ps' = chain_data (heap (snd s)) ps @ out @ out')) \<and>
        ((\<forall>k. pool (snd s) k) \<longrightarrow> fst s'' \<noteq> NULL)"
    if inv: "tx_inv opt b0 (snd s) head (fst s) ps" for ps
  proof -
  from inv 1 have a: "rest (snd s') = rest (snd s)" "brk (snd s) \<le> brk (snd s')"
      "\<forall>p. p \<le> b0 \<longrightarrow> heap (snd s') p = heap (snd s) p"
      "fst s' \<noteq> NULL \<longrightarrow> (\<exists>ps'. tx_inv opt b0 (snd s') head (fst s') ps' \<and>
                  chain_data (heap (snd s')) ps' = chain_data (heap (snd s)) ps @ out)"
      "(\<forall>k. pool (snd s) k) \<longrightarrow> fst s' \<noteq> NULL"
    unfolding tx_ext_def by blast+
  show ?thesis
  proof (cases "fst s' = NULL")
    case True
    with 2 have "s'' = s'" by (simp add: tx_ext_def)
    with True a show ?thesis by simp
  next
    case False
    with a(4) obtain ps' where inv': "tx_inv opt b0 (snd s') head (fst s') ps'"
      and cd: "chain_data (heap (snd s')) ps' = chain_data (heap (snd s)) ps @ out"
      by blast
    from 2 inv' have b: "rest (snd s'') = rest (snd s')" "brk (snd s') \<le> brk (snd s'')"
      "\<forall>p. p \<le> b0 \<longrightarrow> heap (snd s'') p = heap (snd s') p"
      "fst s'' \<noteq> NULL \<longrightarrow> (\<exists>ps''. tx_inv opt b0 (snd s'') head (fst s'') ps'' \<and>
                  chain_data (heap (snd s'')) ps'' = chain_data (heap (snd s')) ps' @ out')"
      "(\<forall>k. pool (snd s') k) \<longrightarrow> fst s'' \<noteq> NULL"
      unfolding tx_ext_def by blast+
    have p: "pool (snd s') = pool (snd s)" by (rule rest_fields(1) [OF a(1)])
    show ?thesis using a(1,2,3,5) b cd p by auto
  qed
  qed
  with null show ?thesis unfolding tx_ext_def by blast
qed

lemma tx_ext_refl: "tx_ext opt b0 head s s []"
  unfolding tx_ext_def using tx_inv_tail [of opt b0 "snd s" head "fst s"] by auto

lemma tx_ext_low_heap:
  "tx_ext opt b0 head s s' out \<Longrightarrow> tx_st opt b0 head s \<Longrightarrow> p \<le> b0 \<Longrightarrow>
   heap (snd s') p = heap (snd s) p"
  unfolding tx_ext_def tx_st_def by auto

lemma tx_ext_rest:
  "tx_ext opt b0 head s s' out \<Longrightarrow> tx_st opt b0 head s \<Longrightarrow> rest (snd s') = rest (snd s)"
  unfolding tx_ext_def tx_st_def by auto

lemma tx_st_step:
  "tx_ext opt b0 head s s' out \<Longrightarrow> tx_st opt b0 head s \<Longrightarrow> tx_st opt b0 head s'"
  unfolding tx_ext_def tx_st_def by (cases "fst s' = NULL") auto

lemma escape_simps [simp]:
  "escape accm [] = []"
  "escape accm (c # cs) = esc accm c @ escape accm cs"
  "escape accm (xs @ ys) = escape accm xs @ escape accm ys"
  by (simp_all add: escape_def)

lemma fcs_list_simps [simp]:
  "fcs_list f [] = f"
  "fcs_list f (c # cs) = fcs_list (PPP_FCS f c) cs"
  "fcs_list f (xs @ ys) = fcs_list (fcs_list f xs) ys"
  by (simp_all add: fcs_list_def)

lemma insertion_simps [simp]: "insertion (Some accm) c = esc accm c" "insertion None c = [c]"
  by (simp_all add: insertion_def)

lemma load_loop_ext:
  assumes big: "2 \<le> PBUF_POOL_BUFSIZE opt" and low: "p \<le> b0"
  shows "tx_st opt b0 head (tail, w) \<Longrightarrow> i + n \<le> length (payload (heap w p)) \<Longrightarrow>
    fst (load_loop opt accm p i n (fcs, tail, w)) = fcs_list fcs (take n (drop i (payload (heap w p)))) \<and>
    tx_ext opt b0 head (tail, w) (snd (load_loop opt accm p i n (fcs, tail, w)))
      (escape accm (take n (drop i (payload (heap w p)))))"
proof (induction n arbitrary: i fcs tail w)
  case 0
  then show ?case by (simp add: tx_ext_refl)
next
  case (Suc n)
  let ?c = "payload (heap w p) ! i"
  obtain tail1 w1 where ap: "pppos_append opt ?c tail (Some accm) w = (tail1, w1)"
    by (cases "pppos_append opt ?c tail (Some accm) w")
  have ext1: "tx_ext opt b0 head (tail, w) (tail1, w1) (esc accm ?c)"
    using append_ext [OF big, of b0 head tail w ?c "Some accm"] ap by simp
  have ok1: "tx_st opt b0 head (tail1, w1)"
    using tx_st_step [OF ext1 Suc.prems(1)] .
  have hp: "heap w1 p = heap w p"
    using tx_ext_low_heap [OF ext1 Suc.prems(1) low] by simp
  have len: "Suc i + n \<le> length (payload (heap w1 p))" using Suc.prems(2) hp by simp
  note ih = Suc.IH [OF ok1 len, of "PPP_FCS fcs ?c"]
  have bs: "take (Suc n) (drop i (payload (heap w p))) = ?c # take n (drop (Suc i) (payload (heap w p)))"
    using Suc.prems(2) by (simp add: take_Suc_conv_app_nth Cons_nth_drop_Suc [symmetric])
  have e: "load_loop opt accm p i (Suc n) (fcs, tail, w)
         = load_loop opt accm p (Suc i) n (PPP_FCS fcs ?c, tail1, w1)"
    by (simp add: ap)
  show ?case
    unfolding e bs using ih tx_ext_trans [OF ext1] by (simp add: hp)
qed

lemma add_fcs_and_flag_ext:
  assumes big: "2 \<le> PBUF_POOL_BUFSIZE opt"
  shows "tx_ext opt b0 head (tail, w) (add_fcs_and_flag opt accm (fcs, tail, w))
           (escape accm (fcs_bytes fcs) @ [PPP_FLAG])"
proof -
  let ?lo = "ucast (NOT fcs AND 0xFF) :: u_char"
  let ?hi = "ucast (drop_bit 8 (NOT fcs) AND 0xFF) :: u_char"
  obtain t1 w1 where 1: "pppos_append opt ?lo tail (Some accm) w = (t1, w1)"
    by (cases "pppos_append opt ?lo tail (Some accm) w")
  obtain t2 w2 where 2: "pppos_append opt ?hi t1 (Some accm) w1 = (t2, w2)"
    by (cases "pppos_append opt ?hi t1 (Some accm) w1")
  have e1: "tx_ext opt b0 head (tail, w) (t1, w1) (esc accm ?lo)"
    using append_ext [OF big, of b0 head tail w ?lo "Some accm"] 1 by simp
  have e2: "tx_ext opt b0 head (t1, w1) (t2, w2) (esc accm ?hi)"
    using append_ext [OF big, of b0 head t1 w1 ?hi "Some accm"] 2 by simp
  have e3: "tx_ext opt b0 head (t2, w2) (pppos_append opt PPP_FLAG t2 None w2) [PPP_FLAG]"
    using append_ext [OF big, of b0 head t2 w2 PPP_FLAG None] by simp
  have "add_fcs_and_flag opt accm (fcs, tail, w) = pppos_append opt PPP_FLAG t2 None w2"
    by (simp add: add_fcs_and_flag_def 1 2)
  then show ?thesis
    using tx_ext_trans [OF tx_ext_trans [OF e1 e2] e3] by (simp add: fcs_bytes_def)
qed

lemma idle_flag_ext:
  assumes big: "2 \<le> PBUF_POOL_BUFSIZE opt"
  shows "tx_ext opt b0 head (tail, w) (idle_flag opt ppp tail w)
           (if link_idle opt ppp w then [PPP_FLAG] else [])"
  using append_ext [OF big, of b0 head tail w PPP_FLAG None]
  by (simp add: idle_flag_def link_idle_def tx_ext_refl)

lemma protocol_bytes:
  "ucast (drop_bit 8 (protocol::u_short) AND 0xFF) = (ucast (drop_bit 8 protocol) :: u_char)"
  "ucast (protocol AND 0xFF) = (ucast protocol :: u_char)"
  by (rule bit_word_eqI, drule lt8E, auto simp add: bit_simps)+

lemma build_header_ext:
  assumes big: "2 \<le> PBUF_POOL_BUFSIZE opt"
  shows "fst (build_header opt ppp protocol (fcs, tail, w)) = fcs_list fcs (tx_header ppp protocol) \<and>
         tx_ext opt b0 head (tail, w) (snd (build_header opt ppp protocol (fcs, tail, w)))
           (escape (out_accm ppp) (tx_header ppp protocol))"
proof -
  let ?a = "out_accm ppp"
  define st1 where "st1 =
            (if \<not> accomp ppp
             then (case (fcs, tail, w) of (fcs_out, tail, w) \<Rightarrow>
                     case pppos_append opt PPP_ALLSTATIONS tail (Some (out_accm ppp)) w
                       of (tail1, w1) \<Rightarrow>
                     case pppos_append opt PPP_UI tail1 (Some (out_accm ppp)) w1
                       of (tail2, w2) \<Rightarrow>
                     (PPP_FCS (PPP_FCS fcs_out PPP_ALLSTATIONS) PPP_UI, tail2, w2))
             else (fcs, tail, w))"
  define h1 where "h1 = (if \<not> accomp ppp then [PPP_ALLSTATIONS, PPP_UI] else [])"
  have s1: "fst st1 = fcs_list fcs h1 \<and> tx_ext opt b0 head (tail, w) (snd st1) (escape ?a h1)"
  proof (cases "accomp ppp")
    case True
    then show ?thesis by (simp add: st1_def h1_def tx_ext_refl)
  next
    case False
    obtain t1 w1 where 1: "pppos_append opt PPP_ALLSTATIONS tail (Some ?a) w = (t1, w1)"
      by (cases "pppos_append opt PPP_ALLSTATIONS tail (Some ?a) w")
    obtain t2 w2 where 2: "pppos_append opt PPP_UI t1 (Some ?a) w1 = (t2, w2)"
      by (cases "pppos_append opt PPP_UI t1 (Some ?a) w1")
    have e1: "tx_ext opt b0 head (tail, w) (t1, w1) (esc ?a PPP_ALLSTATIONS)"
      using append_ext [OF big, of b0 head tail w PPP_ALLSTATIONS "Some ?a"] 1 by simp
    have e2: "tx_ext opt b0 head (t1, w1) (t2, w2) (esc ?a PPP_UI)"
      using append_ext [OF big, of b0 head t1 w1 PPP_UI "Some ?a"] 2 by simp
    show ?thesis
      using False tx_ext_trans [OF e1 e2] by (simp add: st1_def h1_def 1 2)
  qed
  define h2 where "h2 = (if \<not> pcomp ppp \<or> protocol > 0xFF then [ucast (drop_bit 8 protocol) :: u_char] else [])"
  define st2 where "st2 =
            (if \<not> pcomp ppp \<or> protocol > 0xFF
             then (case st1 of (fcs_out, tail, w) \<Rightarrow>
                     let c = ucast (drop_bit 8 protocol AND 0xFF) in
                     case pppos_append opt c tail (Some (out_accm ppp)) w of (tail1, w1) \<Rightarrow>
                     (PPP_FCS fcs_out c, tail1, w1))
             else st1)"
  obtain f1 t1 w1 where st1: "st1 = (f1, t1, w1)" by (cases st1)
  have s2: "fst st2 = fcs_list f1 h2 \<and> tx_ext opt b0 head (t1, w1) (snd st2) (escape ?a h2)"
  proof (cases "\<not> pcomp ppp \<or> protocol > 0xFF")
    case False
    then show ?thesis by (simp add: st2_def h2_def st1 tx_ext_refl)
  next
    case True
    let ?c = "ucast (drop_bit 8 protocol) :: u_char"
    obtain t2 w2 where 2: "pppos_append opt ?c t1 (Some ?a) w1 = (t2, w2)"
      by (cases "pppos_append opt ?c t1 (Some ?a) w1")
    have e2: "tx_ext opt b0 head (t1, w1) (t2, w2) (esc ?a ?c)"
      using append_ext [OF big, of b0 head t1 w1 ?c "Some ?a"] 2 by simp
    show ?thesis
      using True e2 by (simp add: st2_def h2_def st1 protocol_bytes 2)
  qed
  obtain f2 t2 w2 where st2: "st2 = (f2, t2, w2)" by (cases st2)
  let ?c = "ucast protocol :: u_char"
  obtain t3 w3 where 3: "pppos_append opt ?c t2 (Some ?a) w2 = (t3, w3)"
    by (cases "pppos_append opt ?c t2 (Some ?a) w2")
  have e3: "tx_ext opt b0 head (t2, w2) (t3, w3) (esc ?a ?c)"
    using append_ext [OF big, of b0 head t2 w2 ?c "Some ?a"] 3 by simp
  have bh: "build_header opt ppp protocol (fcs, tail, w) = (PPP_FCS f2 ?c, t3, w3)"
    unfolding build_header_def Let_def
    unfolding st1_def [symmetric] unfolding st2_def [symmetric, unfolded Let_def]
    by (simp add: st2 protocol_bytes 3)
  have hd: "tx_header ppp protocol = h1 @ h2 @ [?c]"
    by (simp add: tx_header_def h1_def h2_def)
  show ?thesis
    unfolding bh hd using s1 s2 e3 st1 st2
      tx_ext_trans [OF tx_ext_trans [of opt b0 head "(tail, w)" "(t1, w1)" "escape ?a h1" "(t2, w2)" "escape ?a h2"] e3]
    by simp
qed

lemma chain_heap_cong:
  "(\<And>q. q \<in> set ps \<Longrightarrow> h' q = h q) \<Longrightarrow> chain h' p ps = chain h p ps"
  by (rule chain_next_cong) simp

lemma chain_data_heap_cong:
  "(\<And>q. q \<in> set ps \<Longrightarrow> h' q = h q) \<Longrightarrow> chain_data h' ps = chain_data h ps"
  by (rule chain_data_cong) simp

lemma load_packet_ext:
  assumes big: "2 \<le> PBUF_POOL_BUFSIZE opt"
  shows "chain (heap w) pb qs \<Longrightarrow>
    \<forall>q\<in>set qs. q \<le> b0 \<and> len (heap w q) \<le> length (payload (heap w q)) \<Longrightarrow>
    tx_st opt b0 head (tail, w) \<Longrightarrow>
    \<exists>s'. load_packet opt accm pb (fcs, tail, w) = Some (fcs_list fcs (chain_data (heap w) qs), s') \<and>
          tx_ext opt b0 head (tail, w) s' (escape accm (chain_data (heap w) qs))"
proof (induction qs arbitrary: pb fcs tail w)
  case Nil
  then show ?case
    by (subst load_packet.simps) (simp add: chain_data_def tx_ext_refl)
next
  case (Cons q qs)
  from Cons.prems(1) have pb: "pb = q" "q \<noteq> NULL" and ch: "chain (heap w) (next (heap w q)) qs"
    by simp_all
  from Cons.prems(2) have low: "q \<le> b0" and fit: "0 + len (heap w q) \<le> length (payload (heap w q))"
    by simp_all
  obtain f1 t1 w1 where ll: "load_loop opt accm q 0 (len (heap w q)) (fcs, tail, w) = (f1, t1, w1)"
    by (cases "load_loop opt accm q 0 (len (heap w q)) (fcs, tail, w)")
  from load_loop_ext [OF big low Cons.prems(3) fit, of accm fcs]
  have f1: "f1 = fcs_list fcs (pbuf_data (heap w q))"
    and e1: "tx_ext opt b0 head (tail, w) (t1, w1) (escape accm (pbuf_data (heap w q)))"
    by (simp_all add: ll pbuf_data_def)
  have ok1: "tx_st opt b0 head (t1, w1)"
    using tx_st_step [OF e1 Cons.prems(3)] .
  have same: "heap w1 x = heap w x" if "x \<le> b0" for x
    using tx_ext_low_heap [OF e1 Cons.prems(3) that] by simp
  have sameq: "heap w1 x = heap w x" if "x \<in> set (q # qs)" for x
    using that Cons.prems(2) same by auto
  have ch1: "chain (heap w1) (next (heap w1 q)) qs"
    using ch sameq chain_heap_cong [of qs "heap w1" "heap w"] by simp
  have pr1: "\<forall>x\<in>set qs. x \<le> b0 \<and> len (heap w1 x) \<le> length (payload (heap w1 x))"
    using Cons.prems(2) sameq by simp
  from Cons.IH [OF ch1 pr1 ok1, of f1]
  obtain s' where lp: "load_packet opt accm (next (heap w1 q)) (f1, t1, w1)
                       = Some (fcs_list f1 (chain_data (heap w1) qs), s')"
    and e2: "tx_ext opt b0 head (t1, w1) s' (escape accm (chain_data (heap w1) qs))"
    by blast
  have cd: "chain_data (heap w1) qs = chain_data (heap w) qs"
    using sameq chain_data_heap_cong [of qs "heap w1" "heap w"] by simp
  have cdq: "chain_data (heap w) (q # qs) = pbuf_data (heap w q) @ chain_data (heap w) qs"
    by (simp add: chain_data_def)
  have "load_packet opt accm pb (fcs, tail, w) = load_packet opt accm (next (heap w1 q)) (f1, t1, w1)"
    by (subst load_packet.simps) (simp add: pb ll)
  then show ?case
    using lp e2 tx_ext_trans [OF e1 e2] by (simp add: cd cdq f1)
qed

lemma sio_write_full:
  "n \<le> sio_cap w (sio_calls w) \<Longrightarrow>
   sio_write data n w = (n, w\<lparr>wire := wire w @ take n data, sio_calls := Suc (sio_calls w)\<rparr>)"
  by (simp add: sio_write_def min_def)

lemma sio_write_short:
  "sio_cap w (sio_calls w) < n \<Longrightarrow>
   sio_write data n w = (sio_cap w (sio_calls w),
      w\<lparr>wire := wire w @ take (sio_cap w (sio_calls w)) data, sio_calls := Suc (sio_calls w)\<rparr>)"
  by (simp add: sio_write_def min_def Let_def)

lemma xmit_loop_complete:
  "chain (heap w) b ps \<Longrightarrow>
   \<forall>i<length ps. len (heap w (ps ! i)) \<le> sio_cap w (sio_calls w + i) \<Longrightarrow>
   pppos_xmit_loop nb b ppp w =
     Some (True, ppp, w\<lparr>wire := wire w @ chain_data (heap w) ps,
                        sio_calls := sio_calls w + length ps\<rparr>)"
proof (induction ps arbitrary: b w)
  case Nil
  then show ?case by (subst pppos_xmit_loop.simps) (simp add: chain_data_def)
next
  case (Cons q ps)
  from Cons.prems(1) have b: "b = q" "q \<noteq> NULL" and ch: "chain (heap w) (next (heap w q)) ps"
    by simp_all
  from Cons.prems(2) have full: "len (heap w q) \<le> sio_cap w (sio_calls w)" by fastforce
  let ?w1 = "w\<lparr>wire := wire w @ take (len (heap w q)) (payload (heap w q)),
                sio_calls := Suc (sio_calls w)\<rparr>"
  have caps: "\<forall>i<length ps. len (heap ?w1 (ps ! i)) \<le> sio_cap ?w1 (sio_calls ?w1 + i)"
  proof (intro allI impI)
    fix i assume "i < length ps"
    then have "len (heap w ((q # ps) ! Suc i)) \<le> sio_cap w (sio_calls w + Suc i)"
      using Cons.prems(2) by (metis Suc_less_eq length_Cons)
    then show "len (heap ?w1 (ps ! i)) \<le> sio_cap ?w1 (sio_calls ?w1 + i)" by simp
  qed
  have ch1: "chain (heap ?w1) (next (heap ?w1 q)) ps" using ch by simp
  note ih = Cons.IH [OF ch1 caps]
  have "pppos_xmit_loop nb b ppp w = pppos_xmit_loop nb (next (heap ?w1 q)) ppp ?w1"
    by (subst pppos_xmit_loop.simps) (simp add: b sio_write_full [OF full])
  then show ?case
    using ih by (simp add: chain_data_def pbuf_data_def)
qed

lemma xmit_loop_short:
  "chain (heap w) b (ps @ q # rs) \<Longrightarrow>
   \<forall>i<length ps. len (heap w (ps ! i)) \<le> sio_cap w (sio_calls w + i) \<Longrightarrow>
   sio_cap w (sio_calls w + length ps) < len (heap w q) \<Longrightarrow>
   pppos_xmit_loop nb b ppp w =
     Some (False, ppp\<lparr>last_xmit := 0\<rparr>,
           w\<lparr>wire := wire w @ chain_data (heap w) ps
                      @ take (sio_cap w (sio_calls w + length ps)) (payload (heap w q)),
             sio_calls := Suc (sio_calls w + length ps),
             link_err := Suc (link_err w), ifoutdiscards := Suc (ifoutdiscards w),
             freed := freed w @ [nb]\<rparr>)"
proof (induction ps arbitrary: b w)
  case Nil
  from Nil.prems(1) have b: "b = q" "q \<noteq> NULL" by simp_all
  from Nil.prems(3) have short: "sio_cap w (sio_calls w) < len (heap w q)" by simp
  show ?case
    using short
    by (subst pppos_xmit_loop.simps)
       (simp add: b sio_write_short [OF short] chain_data_def pbuf_free_def)
next
  case (Cons p ps)
  from Cons.prems(1) have b: "b = p" "p \<noteq> NULL"
    and ch: "chain (heap w) (next (heap w p)) (ps @ q # rs)"
    by simp_all
  from Cons.prems(2) have full: "len (heap w p) \<le> sio_cap w (sio_calls w)" by fastforce
  let ?w1 = "w\<lparr>wire := wire w @ take (len (heap w p)) (payload (heap w p)),
                sio_calls := Suc (sio_calls w)\<rparr>"
  have caps: "\<forall>i<length ps. len (heap ?w1 (ps ! i)) \<le> sio_cap ?w1 (sio_calls ?w1 + i)"
  proof (intro allI impI)
    fix i assume "i < length ps"
    then have "len (heap w ((p # ps) ! Suc i)) \<le> sio_cap w (sio_calls w + Suc i)"
      using Cons.prems(2) by (metis Suc_less_eq length_Cons)
    then show "len (heap ?w1 (ps ! i)) \<le> sio_cap ?w1 (sio_calls ?w1 + i)" by simp
  qed
  have ch1: "chain (heap ?w1) (next (heap ?w1 p)) (ps @ q # rs)" using ch by simp
  have sh1: "sio_cap ?w1 (sio_calls ?w1 + length ps) < len (heap ?w1 q)"
    using Cons.prems(3) by simp
  note ih = Cons.IH [OF ch1 caps sh1]
  have "pppos_xmit_loop nb b ppp w = pppos_xmit_loop nb (next (heap ?w1 p)) ppp ?w1"
    by (subst pppos_xmit_loop.simps) (simp add: b sio_write_full [OF full])
  then show ?case
    using ih by (simp add: chain_data_def pbuf_data_def)
qed

subsection \<open>pppos_xmit\<close>

lemma pppos_xmit_complete:
  assumes "chain (heap w) nb ps" and "nb \<noteq> NULL"
    and "\<forall>i<length ps. len (heap w (ps ! i)) \<le> sio_cap w (sio_calls w + i)"
  shows "pppos_xmit nb ppp w =
     Some (Inr (ppp, w\<lparr>wire := wire w @ chain_data (heap w) ps,
                        sio_calls := sio_calls w + length ps,
                        ifoutoctets := ifoutoctets w + tot_len (heap w nb),
                        ifoutucastpkts := Suc (ifoutucastpkts w),
                        freed := freed w @ [nb], link_xmit := Suc (link_xmit w)\<rparr>))"
  using assms(2)
  by (simp add: pppos_xmit_def xmit_loop_complete [OF assms(1,3)] pbuf_free_def)

lemma pppos_xmit_short:
  assumes "chain (heap w) nb (ps @ q # rs)"
    and "\<forall>i<length ps. len (heap w (ps ! i)) \<le> sio_cap w (sio_calls w + i)"
    and "sio_cap w (sio_calls w + length ps) < len (heap w q)"
  shows "pppos_xmit nb ppp w =
     Some (Inr (ppp\<lparr>last_xmit := 0\<rparr>,
           w\<lparr>wire := wire w @ chain_data (heap w) ps
                      @ take (sio_cap w (sio_calls w + length ps)) (payload (heap w q)),
             sio_calls := Suc (sio_calls w + length ps),
             link_err := Suc (link_err w), ifoutdiscards := Suc (ifoutdiscards w),
             freed := freed w @ [nb]\<rparr>))"
  by (simp add: pppos_xmit_def xmit_loop_short [OF assms])

lemma first_failure:
  fixes n :: nat
  assumes "\<not> (\<forall>i<n. P i)"
  shows "\<exists>k<n. \<not> P k \<and> (\<forall>i<k. P i)"
proof -
  from assms obtain j where j: "j < n \<and> \<not> P j" by blast
  define k where "k = (LEAST j. j < n \<and> \<not> P j)"
  have "k < n \<and> \<not> P k" unfolding k_def by (rule LeastI [of _ j]) (rule j)
  moreover have "P i" if "i < k" for i
  proof (rule ccontr)
    assume "\<not> P i"
    moreover have "i < n" using that \<open>k < n \<and> \<not> P k\<close> by simp
    ultimately have "k \<le> i" unfolding k_def by (intro Least_le) simp
    with that show False by simp
  qed
  ultimately show ?thesis by blast
qed

text \<open>On a chain \<open>pppos_xmit\<close> returns and frees the chain, whatever the serial line does.\<close>

lemma pppos_xmit_returns:
  assumes ch: "chain (heap w) nb ps" and nn: "nb \<noteq> NULL"
  shows "\<exists>ppp' w'. pppos_xmit nb ppp w = Some (Inr (ppp', w')) \<and> freed w' = freed w @ [nb]
           \<and> heap w' = heap w"
proof (cases "\<forall>i<length ps. len (heap w (ps ! i)) \<le> sio_cap w (sio_calls w + i)")
  case True
  show ?thesis by (simp add: pppos_xmit_complete [OF ch nn True])
next
  case False
  from first_failure [OF False] obtain k where k: "k < length ps"
    and short: "\<not> len (heap w (ps ! k)) \<le> sio_cap w (sio_calls w + k)"
    and full: "\<forall>i<k. len (heap w (ps ! i)) \<le> sio_cap w (sio_calls w + i)"
    by blast
  have ps: "ps = take k ps @ ps ! k # drop (Suc k) ps" using k by (rule id_take_nth_drop)
  have lk: "length (take k ps) = k" using k by simp
  have ch': "chain (heap w) nb (take k ps @ ps ! k # drop (Suc k) ps)" using ch ps by simp
  have full': "\<forall>i<length (take k ps). len (heap w (take k ps ! i)) \<le> sio_cap w (sio_calls w + i)"
    using full lk by simp
  have short': "sio_cap w (sio_calls w + length (take k ps)) < len (heap w (ps ! k))"
    using short lk by simp
  show ?thesis by (simp add: pppos_xmit_short [OF ch' full' short'])
qed

subsection \<open>From the fresh head to the serial line\<close>

lemma tx_start:
  assumes "pool w (nalloc w)"
  shows "tx_inv opt (brk w) (snd (pbuf_alloc opt w)) (Suc (brk w)) (Suc (brk w)) [Suc (brk w)]"
    and "chain_data (heap (snd (pbuf_alloc opt w))) [Suc (brk w)] = []"
    and "tx_st opt (brk w) (Suc (brk w)) (Suc (brk w), snd (pbuf_alloc opt w))"
proof -
  show 1: "tx_inv opt (brk w) (snd (pbuf_alloc opt w)) (Suc (brk w)) (Suc (brk w)) [Suc (brk w)]"
    using assms by (simp add: tx_inv_def pbuf_alloc_ok)
  show "chain_data (heap (snd (pbuf_alloc opt w))) [Suc (brk w)] = []"
    using assms by (simp add: pbuf_alloc_ok chain_data_def)
  show "tx_st opt (brk w) (Suc (brk w)) (Suc (brk w), snd (pbuf_alloc opt w))"
    unfolding tx_st_def using 1 by auto
qed

lemma tx_built:
  assumes ext: "tx_ext opt (brk w) (Suc (brk w)) (Suc (brk w), snd (pbuf_alloc opt w)) (tail2, w2) out"
    and p0: "pool w (nalloc w)"
  shows "rest w2 = rest w" and "p \<le> brk w \<Longrightarrow> heap w2 p = heap w p"
    and "tail2 \<noteq> NULL \<Longrightarrow>
           \<exists>ps'. tx_inv opt (brk w) w2 (Suc (brk w)) tail2 ps' \<and> chain_data (heap w2) ps' = out"
    and "\<forall>k. pool w k \<Longrightarrow> tail2 \<noteq> NULL"
proof -
  let ?head = "Suc (brk w)"
  let ?w0 = "snd (pbuf_alloc opt w)"
  note st = tx_start [OF p0, of opt]
  from ext st(1) have r: "rest w2 = rest ?w0"
    and low: "\<forall>p. p \<le> brk w \<longrightarrow> heap w2 p = heap ?w0 p"
    and ok: "tail2 \<noteq> NULL \<longrightarrow> (\<exists>ps'. tx_inv opt (brk w) w2 ?head tail2 ps' \<and>
                chain_data (heap w2) ps' = chain_data (heap ?w0) [?head] @ out)"
    and pl: "(\<forall>k. pool ?w0 k) \<longrightarrow> tail2 \<noteq> NULL"
    unfolding tx_ext_def by (metis fst_conv snd_conv)+
  show "rest w2 = rest w" using r by simp
  show "heap w2 p = heap w p" if "p \<le> brk w"
    using low p0 that by (simp add: pbuf_alloc_ok)
  show "\<exists>ps'. tx_inv opt (brk w) w2 ?head tail2 ps' \<and> chain_data (heap w2) ps' = out"
    if "tail2 \<noteq> NULL"
    using ok that st(2) by simp
  have "pool ?w0 = pool w" using rest_fields(1) [of ?w0 w] by simp
  then show "tail2 \<noteq> NULL" if "\<forall>k. pool w k" using pl that by simp
qed

lemma tx_send:
  assumes inv: "tx_inv opt b0 w2 head tail2 ps'" and sio: "\<forall>k. PBUF_POOL_BUFSIZE opt \<le> sio_cap w2 k"
  shows "pppos_xmit head ppp w2 =
     Some (Inr (ppp, w2\<lparr>wire := wire w2 @ chain_data (heap w2) ps',
                        sio_calls := sio_calls w2 + length ps',
                        ifoutoctets := ifoutoctets w2 + tot_len (heap w2 head),
                        ifoutucastpkts := Suc (ifoutucastpkts w2),
                        freed := freed w2 @ [head], link_xmit := Suc (link_xmit w2)\<rparr>))"
proof -
  have ch: "chain (heap w2) head ps'" using inv by (simp add: tx_inv_def)
  have "head \<in> set ps'" using inv by (cases ps') (auto simp: tx_inv_def)
  then have hn: "head \<noteq> NULL" using chain_not_null [OF ch] by (cases "head = NULL") auto
  have caps: "\<forall>i<length ps'. len (heap w2 (ps' ! i)) \<le> sio_cap w2 (sio_calls w2 + i)"
  proof (intro allI impI)
    fix i assume "i < length ps'"
    then have "ps' ! i \<in> set ps'" by simp
    then have "len (heap w2 (ps' ! i)) \<le> PBUF_POOL_BUFSIZE opt" using inv by (simp add: tx_inv_def)
    then show "len (heap w2 (ps' ! i)) \<le> sio_cap w2 (sio_calls w2 + i)"
      using sio le_trans by blast
  qed
  show ?thesis by (rule pppos_xmit_complete [OF ch hn caps])
qed

subsection \<open>The netif output callback\<close>

lemma link_idle_rest: "rest w' = rest w \<Longrightarrow> link_idle opt ppp w' = link_idle opt ppp w"
  using rest_fields(6) [of w' w] by (simp add: link_idle_def sys_jiffies_def)

lemma tx_header_last_xmit [simp]: "tx_header (ppp\<lparr>last_xmit := t\<rparr>) protocol = tx_header ppp protocol"
  by (simp add: tx_header_def)

lemma netif_output_builds:
  assumes big: "2 \<le> PBUF_POOL_BUFSIZE opt"
    and p0: "pool w (nalloc w)"
    and pb: "chain (heap w) pb qs"
    and qs: "\<forall>q\<in>set qs. q \<le> brk w \<and> len (heap w q) \<le> length (payload (heap w q))"
  shows "\<exists>st t4 w4. 
      load_packet opt (out_accm ppp) pb
         (build_header opt (ppp\<lparr>last_xmit := jiffies w\<rparr>) protocol
            (PPP_INITFCS, idle_flag opt ppp (Suc (brk w)) (snd (pbuf_alloc opt w)))) = Some st \<and>
      add_fcs_and_flag opt (out_accm ppp) st = (t4, w4) \<and>
      tx_ext opt (brk w) (Suc (brk w)) (Suc (brk w), snd (pbuf_alloc opt w)) (t4, w4)
        (tx_frame (link_idle opt ppp w) (out_accm ppp) (tx_header ppp protocol @ chain_data (heap w) qs))"
proof -
  let ?head = "Suc (brk w)"
  let ?w0 = "snd (pbuf_alloc opt w)"
  let ?a = "out_accm ppp"
  let ?ppp1 = "ppp\<lparr>last_xmit := jiffies w\<rparr>"
  note st0 = tx_start [OF p0, of opt]
  obtain t1 w1 where i: "idle_flag opt ppp ?head ?w0 = (t1, w1)"
    by (cases "idle_flag opt ppp ?head ?w0")
  have idle0: "link_idle opt ppp ?w0 = link_idle opt ppp w" by (rule link_idle_rest) simp
  have e1: "tx_ext opt (brk w) ?head (?head, ?w0) (t1, w1) (if link_idle opt ppp w then [PPP_FLAG] else [])"
    using idle_flag_ext [OF big, of "brk w" ?head ?head ?w0 ppp] i idle0 by simp
  obtain f2 t2 w2 where b: "build_header opt ?ppp1 protocol (PPP_INITFCS, t1, w1) = (f2, t2, w2)"
    by (cases "build_header opt ?ppp1 protocol (PPP_INITFCS, t1, w1)")
  from build_header_ext [OF big, of ?ppp1 protocol PPP_INITFCS t1 w1 "brk w" ?head]
  have f2: "f2 = fcs_list PPP_INITFCS (tx_header ppp protocol)"
    and e2: "tx_ext opt (brk w) ?head (t1, w1) (t2, w2) (escape ?a (tx_header ppp protocol))"
    by (simp_all add: b)
  note e12 = tx_ext_trans [OF e1 e2]
  have st2: "tx_st opt (brk w) ?head (t2, w2)" by (rule tx_st_step [OF e12 st0(3)])
  have same: "heap w2 x = heap w x" if "x \<le> brk w" for x
    using tx_built(2) [OF e12 p0 that] .
  have sameq: "heap w2 x = heap w x" if "x \<in> set qs" for x
    using that qs same by auto
  have pb2: "chain (heap w2) pb qs" using pb sameq chain_heap_cong [of qs "heap w2" "heap w"] by simp
  have qs2: "\<forall>q\<in>set qs. q \<le> brk w \<and> len (heap w2 q) \<le> length (payload (heap w2 q))"
    using qs sameq by simp
  have cd: "chain_data (heap w2) qs = chain_data (heap w) qs"
    using sameq chain_data_heap_cong [of qs "heap w2" "heap w"] by simp
  from load_packet_ext [OF big pb2 qs2 st2, of ?a f2]
  obtain s3 where lp: "load_packet opt ?a pb (f2, t2, w2)
                        = Some (fcs_list f2 (chain_data (heap w) qs), s3)"
    and e3: "tx_ext opt (brk w) ?head (t2, w2) s3 (escape ?a (chain_data (heap w) qs))"
    unfolding cd by blast
  obtain t3 w3 where s3: "s3 = (t3, w3)" by (cases s3)
  let ?f3 = "fcs_list f2 (chain_data (heap w) qs)"
  obtain t4 w4 where a4: "add_fcs_and_flag opt ?a (?f3, t3, w3) = (t4, w4)"
    by (cases "add_fcs_and_flag opt ?a (?f3, t3, w3)")
  have e4: "tx_ext opt (brk w) ?head (t3, w3) (t4, w4) (escape ?a (fcs_bytes ?f3) @ [PPP_FLAG])"
    using add_fcs_and_flag_ext [OF big, of "brk w" ?head t3 w3 ?a ?f3] a4 by simp
  have all: "tx_ext opt (brk w) ?head (?head, ?w0) (t4, w4)
        (tx_frame (link_idle opt ppp w) ?a (tx_header ppp protocol @ chain_data (heap w) qs))"
    using tx_ext_trans [OF tx_ext_trans [OF e12 e3 [unfolded s3]] e4]
    by (simp add: tx_frame_def f2)
  show ?thesis
    using all a4 lp by (simp add: i b s3 sys_jiffies_def)
qed

lemma netif_output_sent:
  assumes big: "2 \<le> PBUF_POOL_BUFSIZE opt"
    and pool: "\<forall>k. pool w k"
    and sio: "\<forall>k. PBUF_POOL_BUFSIZE opt \<le> sio_cap w k"
    and pb: "chain (heap w) pb qs"
    and qs: "\<forall>q\<in>set qs. q \<le> brk w \<and> len (heap w q) \<le> length (payload (heap w q))"
    and vj: "\<not> (protocol = PPP_IP \<and> vj_enabled ppp)"
  shows "\<exists>w'. pppos_link_netif_output_callback opt vj_compress_tcp pb protocol ppp w
               = Some (Inr (ERR_OK, ppp\<lparr>last_xmit := jiffies w\<rparr>, w')) \<and>
             wire w' = wire w @ tx_frame (link_idle opt ppp w) (out_accm ppp)
                                   (tx_header ppp protocol @ chain_data (heap w) qs) \<and>
             freed w' = freed w @ [Suc (brk w)] \<and> link_xmit w' = Suc (link_xmit w)"
proof -
  let ?head = "Suc (brk w)"
  let ?out = "tx_frame (link_idle opt ppp w) (out_accm ppp)
                (tx_header ppp protocol @ chain_data (heap w) qs)"
  have p0: "pool w (nalloc w)" using pool by simp
  obtain w0 where al: "pbuf_alloc opt w = (?head, w0)" using p0 by (simp add: pbuf_alloc_ok)
  have w0: "snd (pbuf_alloc opt w) = w0" by (simp add: al)
  obtain t1 w1 where i: "idle_flag opt ppp ?head w0 = (t1, w1)"
    by (cases "idle_flag opt ppp ?head w0")
  have e1: "tx_ext opt (brk w) ?head (?head, w0) (t1, w1) (if link_idle opt ppp w0 then [PPP_FLAG] else [])"
    using idle_flag_ext [OF big, of "brk w" ?head ?head w0 ppp] i by simp
  have j1: "sys_jiffies w1 = jiffies w"
    using rest_fields(6) [OF tx_built(1) [OF e1 [folded w0] p0]] by (simp add: sys_jiffies_def)
  from netif_output_builds [OF big p0 pb qs, of ppp protocol]
  obtain st t4 w4 where lp: "load_packet opt (out_accm ppp) pb
         (build_header opt (ppp\<lparr>last_xmit := jiffies w\<rparr>) protocol (PPP_INITFCS, t1, w1)) = Some st"
    and a4: "add_fcs_and_flag opt (out_accm ppp) st = (t4, w4)"
    and ext: "tx_ext opt (brk w) ?head (?head, snd (pbuf_alloc opt w)) (t4, w4) ?out"
    unfolding w0 i by blast
  note bl = tx_built [OF ext p0]
  have t4: "t4 \<noteq> NULL" using bl(4) pool by simp
  from bl(3) [OF t4] obtain ps' where inv: "tx_inv opt (brk w) w4 ?head t4 ps'"
    and cd: "chain_data (heap w4) ps' = ?out" by blast
  have sio4: "\<forall>k. PBUF_POOL_BUFSIZE opt \<le> sio_cap w4 k"
    using sio rest_fields(4) [OF bl(1)] by simp
  note snd = tx_send [OF inv sio4, of "ppp\<lparr>last_xmit := jiffies w\<rparr>"]
  have vj': "(protocol = PPP_IP \<and> vj_enabled ppp) = False" using vj by simp
  define w5 where "w5 = w4\<lparr>wire := wire w4 @ chain_data (heap w4) ps',
                        sio_calls := sio_calls w4 + length ps',
                        ifoutoctets := ifoutoctets w4 + tot_len (heap w4 ?head),
                        ifoutucastpkts := Suc (ifoutucastpkts w4),
                        freed := freed w4 @ [?head], link_xmit := Suc (link_xmit w4)\<rparr>"
  have "pppos_link_netif_output_callback opt vj_compress_tcp pb protocol ppp w
               = Some (Inr (ERR_OK, ppp\<lparr>last_xmit := jiffies w\<rparr>, w5))"
    unfolding pppos_link_netif_output_callback_def al vj'
    using t4 by (simp add: i j1 lp a4 snd w5_def)
  moreover have "wire w5 = wire w @ ?out" "freed w5 = freed w @ [?head]" "link_xmit w5 = Suc (link_xmit w)"
    using rest_fields(2,3,12) [OF bl(1)] by (simp_all add: w5_def cd)
  ultimately show ?thesis by blast
qed


lemma connected_accm_len: "length (out_accm connected) = 32"
  by (simp add: connected_eq)












subsection \<open>The raw write callback\<close>

lemma write_callback_builds:
  assumes big: "2 \<le> PBUF_POOL_BUFSIZE opt"
    and p0: "pool w (nalloc w)"
    and low: "p \<le> brk w"
    and fit: "len (heap w p) \<le> length (payload (heap w p))"
  shows "\<exists>t2 w2.
      add_fcs_and_flag opt (out_accm ppp)
        (load_loop opt (out_accm ppp) p 0 (len (heap w p))
           (PPP_INITFCS, idle_flag opt ppp (Suc (brk w)) (snd (pbuf_alloc opt w)))) = (t2, w2) \<and>
      tx_ext opt (brk w) (Suc (brk w)) (Suc (brk w), snd (pbuf_alloc opt w)) (t2, w2)
        (tx_frame (link_idle opt ppp w) (out_accm ppp) (pbuf_data (heap w p)))"
proof -
  let ?head = "Suc (brk w)"
  let ?w0 = "snd (pbuf_alloc opt w)"
  let ?a = "out_accm ppp"
  note st0 = tx_start [OF p0, of opt]
  obtain t1 w1 where i: "idle_flag opt ppp ?head ?w0 = (t1, w1)"
    by (cases "idle_flag opt ppp ?head ?w0")
  have idle0: "link_idle opt ppp ?w0 = link_idle opt ppp w" by (rule link_idle_rest) simp
  have e1: "tx_ext opt (brk w) ?head (?head, ?w0) (t1, w1) (if link_idle opt ppp w then [PPP_FLAG] else [])"
    using idle_flag_ext [OF big, of "brk w" ?head ?head ?w0 ppp] i idle0 by simp
  have st1: "tx_st opt (brk w) ?head (t1, w1)" by (rule tx_st_step [OF e1 st0(3)])
  have hp: "heap w1 p = heap w p" using tx_built(2) [OF e1 p0 low] .
  have fit1: "0 + len (heap w p) \<le> length (payload (heap w1 p))" using fit hp by simp
  obtain f2 t2 w2 where l: "load_loop opt ?a p 0 (len (heap w p)) (PPP_INITFCS, t1, w1) = (f2, t2, w2)"
    by (cases "load_loop opt ?a p 0 (len (heap w p)) (PPP_INITFCS, t1, w1)")
  from load_loop_ext [OF big low st1 fit1, of ?a PPP_INITFCS]
  have f2: "f2 = fcs_list PPP_INITFCS (pbuf_data (heap w p))"
    and e2: "tx_ext opt (brk w) ?head (t1, w1) (t2, w2) (escape ?a (pbuf_data (heap w p)))"
    by (simp_all add: l hp pbuf_data_def)
  obtain t3 w3 where a3: "add_fcs_and_flag opt ?a (f2, t2, w2) = (t3, w3)"
    by (cases "add_fcs_and_flag opt ?a (f2, t2, w2)")
  have e3: "tx_ext opt (brk w) ?head (t2, w2) (t3, w3) (escape ?a (fcs_bytes f2) @ [PPP_FLAG])"
    using add_fcs_and_flag_ext [OF big, of "brk w" ?head t2 w2 ?a f2] a3 by simp
  have all: "tx_ext opt (brk w) ?head (?head, ?w0) (t3, w3)
        (tx_frame (link_idle opt ppp w) ?a (pbuf_data (heap w p)))"
    using tx_ext_trans [OF tx_ext_trans [OF e1 e2] e3]
    by (simp add: tx_frame_def f2)
  show ?thesis using all a3 by (simp add: i l)
qed

lemma write_callback_returns:
  assumes big: "2 \<le> PBUF_POOL_BUFSIZE opt"
    and nn: "p \<noteq> NULL"
    and low: "p \<le> brk w"
    and fit: "len (heap w p) \<le> length (payload (heap w p))"
  shows "\<exists>r ppp' w' fs. pppos_link_write_callback opt p ppp w = Some (Inr (r, ppp', w')) \<and>
           freed w' = freed w @ fs @ [p] \<and> p \<notin> set fs \<and>
           ((\<forall>k. pool w k) \<and> (\<forall>k. PBUF_POOL_BUFSIZE opt \<le> sio_cap w k) \<longrightarrow>
              r = PPPERR_NONE \<and>
              wire w' = wire w @ tx_frame (link_idle opt ppp w) (out_accm ppp) (pbuf_data (heap w p)))"
proof (cases "pool w (nalloc w)")
  case False
  then have al: "pbuf_alloc opt w = (NULL, w\<lparr>nalloc := Suc (nalloc w)\<rparr>)" by (rule pbuf_alloc_fail)
  show ?thesis
    using nn False
    by (intro exI [of _ PPPERR_ALLOC] exI [of _ ppp] exI [of _ "[]"])
       (auto simp add: pppos_link_write_callback_def al pbuf_free_def)
next
  case p0: True
  let ?head = "Suc (brk w)"
  let ?out = "tx_frame (link_idle opt ppp w) (out_accm ppp) (pbuf_data (heap w p))"
  obtain w0 where al: "pbuf_alloc opt w = (?head, w0)" using p0 by (simp add: pbuf_alloc_ok)
  have w0: "snd (pbuf_alloc opt w) = w0" by (simp add: al)
  obtain t1 w1 where i: "idle_flag opt ppp ?head w0 = (t1, w1)"
    by (cases "idle_flag opt ppp ?head w0")
  have e1: "tx_ext opt (brk w) ?head (?head, w0) (t1, w1) (if link_idle opt ppp w0 then [PPP_FLAG] else [])"
    using idle_flag_ext [OF big, of "brk w" ?head ?head w0 ppp] i by simp
  have j1: "sys_jiffies w1 = jiffies w"
    using rest_fields(6) [OF tx_built(1) [OF e1 [folded w0] p0]] by (simp add: sys_jiffies_def)
  from write_callback_builds [OF big p0 low fit, of ppp]
  obtain t2 w2 where a2: "add_fcs_and_flag opt (out_accm ppp)
        (load_loop opt (out_accm ppp) p 0 (len (heap w p)) (PPP_INITFCS, t1, w1)) = (t2, w2)"
    and ext: "tx_ext opt (brk w) ?head (?head, snd (pbuf_alloc opt w)) (t2, w2) ?out"
    unfolding w0 i by blast
  note bl = tx_built [OF ext p0]
  note rf = rest_fields [OF bl(1)]
  have hp: "?head \<noteq> p" using low by simp
  show ?thesis
  proof (cases "t2 = NULL")
    case True
    then have np: "\<not> (\<forall>k. pool w k)" using bl(4) by blast
    have "\<exists>w'. pppos_link_write_callback opt p ppp w
            = Some (Inr (PPPERR_ALLOC, ppp\<lparr>last_xmit := jiffies w\<rparr>, w')) \<and>
          freed w' = freed w @ [?head] @ [p]"
      unfolding pppos_link_write_callback_def al
      using nn True rf(2) by (simp add: i j1 a2 pbuf_free_def Let_def)
    then show ?thesis using hp np by (metis empty_iff empty_set set_ConsD)
  next
    case False
    from bl(3) [OF False] obtain ps' where inv: "tx_inv opt (brk w) w2 ?head t2 ps'"
      and cd: "chain_data (heap w2) ps' = ?out" by blast
    have ch: "chain (heap w2) ?head ps'" using inv by (simp add: tx_inv_def)
    from pppos_xmit_returns [OF ch, of "ppp\<lparr>last_xmit := jiffies w\<rparr>"]
    obtain ppp' w3 where x: "pppos_xmit ?head (ppp\<lparr>last_xmit := jiffies w\<rparr>) w2 = Some (Inr (ppp', w3))"
      and f3: "freed w3 = freed w2 @ [?head]" by auto
    have cb: "pppos_link_write_callback opt p ppp w = Some (Inr (PPPERR_NONE, ppp', pbuf_free p w3))"
      unfolding pppos_link_write_callback_def al
      using nn False by (simp add: i j1 a2 x Let_def)
    have fr: "freed (pbuf_free p w3) = freed w @ [?head] @ [p]"
      using f3 rf(2) by (simp add: pbuf_free_def)
    have ok: "wire (pbuf_free p w3) = wire w @ ?out"
      if "\<forall>k. PBUF_POOL_BUFSIZE opt \<le> sio_cap w k"
    proof -
      have sio2: "\<forall>k. PBUF_POOL_BUFSIZE opt \<le> sio_cap w2 k" using that rf(4) by simp
      from tx_send [OF inv sio2, of "ppp\<lparr>last_xmit := jiffies w\<rparr>"] x
      show ?thesis using rf(3) cd by (auto simp add: pbuf_free_def)
    qed
    show ?thesis
      using cb fr ok hp by (metis empty_iff empty_set set_ConsD)
  qed
qed

text \<open>
  C10. The raw write callback on a buffer \<open>p\<close> (non-null, allocated, its length within
  its payload area; nothing is assumed of \<open>p->next\<close>). On every path the callback returns
  and the calls of \<open>pbuf_free\<close> it makes are for its own output chain, if any, and then
  for \<open>p\<close>, once. When the pool and the serial line do not fail, the frame on the wire is
  built from the \<open>p->len\<close> bytes of the payload of \<open>p\<close> alone, the FCS included, and
  is the same whatever \<open>p->next\<close> is: the rest of a chain is never read.
\<close>

theorem write_callback_first_buffer_only:
  assumes "2 \<le> PBUF_POOL_BUFSIZE opt"
    and "p \<noteq> NULL"
    and "p \<le> brk w"
    and "len (heap w p) \<le> length (payload (heap w p))"
  shows "\<exists>r ppp' w' fs. pppos_link_write_callback opt p ppp w = Some (Inr (r, ppp', w')) \<and>
           freed w' = freed w @ fs @ [p] \<and> p \<notin> set fs \<and>
           ((\<forall>k. pool w k) \<and> (\<forall>k. PBUF_POOL_BUFSIZE opt \<le> sio_cap w k) \<longrightarrow>
              r = PPPERR_NONE \<and>
              wire w' = wire w @ tx_frame (link_idle opt ppp w) (out_accm ppp) (pbuf_data (heap w p)) \<and>
              (\<forall>q. sent (pppos_link_write_callback opt p ppp
                            (w\<lparr>heap := (heap w)(p := (heap w p)\<lparr>next := q\<rparr>)\<rparr>))
                    = Some (PPPERR_NONE, wire w')))"
proof -
  from write_callback_returns [OF assms, of ppp] obtain r ppp' w' fs where
    1: "pppos_link_write_callback opt p ppp w = Some (Inr (r, ppp', w'))"
    "freed w' = freed w @ fs @ [p]" "p \<notin> set fs"
    and 2: "(\<forall>k. pool w k) \<and> (\<forall>k. PBUF_POOL_BUFSIZE opt \<le> sio_cap w k) \<longrightarrow>
              r = PPPERR_NONE \<and>
              wire w' = wire w @ tx_frame (link_idle opt ppp w) (out_accm ppp) (pbuf_data (heap w p))"
    by blast
  have 3: "sent (pppos_link_write_callback opt p ppp
                            (w\<lparr>heap := (heap w)(p := (heap w p)\<lparr>next := q\<rparr>)\<rparr>))
                    = Some (PPPERR_NONE, wire w')"
    if ok: "(\<forall>k. pool w k) \<and> (\<forall>k. PBUF_POOL_BUFSIZE opt \<le> sio_cap w k)" for q
  proof -
    let ?v = "w\<lparr>heap := (heap w)(p := (heap w p)\<lparr>next := q\<rparr>)\<rparr>"
    have a: "p \<le> brk ?v" "len (heap ?v p) \<le> length (payload (heap ?v p))"
      using assms(3,4) by simp_all
    have b: "(\<forall>k. pool ?v k) \<and> (\<forall>k. PBUF_POOL_BUFSIZE opt \<le> sio_cap ?v k)" using ok by simp
    have c: "wire ?v = wire w" "link_idle opt ppp ?v = link_idle opt ppp w"
      "pbuf_data (heap ?v p) = pbuf_data (heap w p)"
      by (simp_all add: link_idle_def sys_jiffies_def pbuf_data_def)
    from write_callback_returns [OF assms(1,2) a, of ppp] b obtain r1 ppp1 w1 where
      "pppos_link_write_callback opt p ppp ?v = Some (Inr (r1, ppp1, w1))"
      "r1 = PPPERR_NONE"
      "wire w1 = wire ?v @ tx_frame (link_idle opt ppp ?v) (out_accm ppp) (pbuf_data (heap ?v p))"
      by blast
    then show ?thesis using 2 ok unfolding c by (simp add: sent_def)
  qed
  show ?thesis using 1 2 3 by blast
qed

theorem write_callback_first_buffer_only_witness:
  "\<exists>ppp' w' fs.
     pppos_link_write_callback opts4 1 connected
         (put_pbuf [7, 8] 2 NULL (put_pbuf [0x21, 0x45] 2 2 sys0))
       = Some (Inr (PPPERR_NONE, ppp', w')) \<and>
     freed w' = fs @ [1] \<and> 1 \<notin> set fs \<and> wire w' = [0x7e, 0x21, 0x45, 0x05, 0x20, 0x7e]"
proof -
  let ?w = "put_pbuf [7, 8] 2 NULL (put_pbuf [0x21, 0x45] 2 2 sys0)"
  have h: "2 \<le> PBUF_POOL_BUFSIZE opts4" "(1::nat) \<noteq> NULL" "1 \<le> brk ?w"
    "len (heap ?w 1) \<le> length (payload (heap ?w 1))"
    by (simp_all add: opts4_def put_pbuf_def sys0_def)
  have ok: "(\<forall>k. pool ?w k) \<and> (\<forall>k. PBUF_POOL_BUFSIZE opts4 \<le> sio_cap ?w k)"
    by (simp add: opts4_def put_pbuf_def sys0_def)
  have v: "freed ?w = []" "wire ?w = []" by (simp_all add: put_pbuf_def sys0_def)
  have fr: "tx_frame (link_idle opts4 connected ?w) (out_accm connected) (pbuf_data (heap ?w 1))
            = [0x7e, 0x21, 0x45, 0x05, 0x20, 0x7e]"
    by (simp add: tx_frame_def fcs_bytes_def link_idle_def sys_jiffies_def
          connected_eq put_pbuf_def sys0_def opts4_def
          pbuf_data_def esc_def ESCAPE_P_def ppp_accm_mask_def
          PPP_FLAG_def PPP_ESCAPE_def PPP_TRANS_def
          PPP_INITFCS_def PPP_FCS_def fcstab_def)
  from write_callback_first_buffer_only [OF h, of connected] ok
  obtain r ppp' w' fs where
    1: "pppos_link_write_callback opts4 1 connected ?w = Some (Inr (r, ppp', w'))"
    "freed w' = freed ?w @ fs @ [1]" "1 \<notin> set fs" "r = PPPERR_NONE"
    "wire w' = wire ?w @ tx_frame (link_idle opts4 connected ?w) (out_accm connected) (pbuf_data (heap ?w 1))"
    by blast
  then show ?thesis unfolding fr v by auto
qed

subsection \<open>The residue of the frame check sequence\<close>

lemma fcs16_list_simps [simp]:
  "fcs16_list r [] = r"
  "fcs16_list r (c # cs) = fcs16_list (fcs16 r c) cs"
  "fcs16_list r (xs @ ys) = fcs16_list (fcs16_list r xs) ys"
  by (simp_all add: fcs16_list_def)













subsection \<open>What a flag does\<close>

lemma pppos_drop_eq:
  "pppos_drop pcrx w =
     (pcrx\<lparr>in_head := NULL, in_tail := NULL\<rparr>,
      w\<lparr>freed := freed w @ dropped pcrx,
        vj_uncompress_errs := Suc (vj_uncompress_errs w),
        link_drop := Suc (link_drop w), ifindiscards := Suc (ifindiscards w)\<rparr>)"
  by (cases "in_head pcrx = NULL")
     (auto simp add: pppos_drop_def pppos_free_current_input_packet_def dropped_def pbuf_free_def)

lemma input_flag:
  "ESCAPE_P (in_accm pcrx) PPP_FLAG \<noteq> 0 \<Longrightarrow> pppos_input_byte opt PPP_FLAG pcrx w = on_flag pcrx w"
  by (simp add: pppos_input_byte_def PPP_FLAG_def PPP_ESCAPE_def)

lemma pd_cases:
  "pd_num s \<le> pd_num PDADDRESS \<longleftrightarrow> s = PDIDLE \<or> s = PDSTART \<or> s = PDADDRESS"
  "pd_num s < pd_num PDDATA \<longleftrightarrow> s \<noteq> PDDATA"
  by (cases s; simp)+

lemma on_flag_state:
  "on_flag pcrx w = Some (Inr (pcrx', w')) \<Longrightarrow>
   in_state pcrx' = PDADDRESS \<and> in_fcs pcrx' = 0xffff \<and> \<not> in_escaped pcrx'"
  by (auto simp add: on_flag_def PPP_INITFCS_def split: option.splits sum.splits if_splits)

lemma ucast_u16_u32_inj: "((ucast (x::u_short) :: u_int) = ucast (y::u_short)) = (x = y)"
proof
  assume "(ucast x :: u_int) = ucast y"
  then have "(ucast (ucast x :: u_int) :: u_short) = ucast (ucast y :: u_int)" by simp
  moreover have "(ucast (ucast z :: u_int) :: u_short) = z" for z :: u_short
    by (rule bit_word_eqI) (auto simp: bit_simps)
  ultimately show "x = y" by simp
qed simp

lemma good_fcs_test: "(ucast (x::u_short) \<noteq> PPP_GOODFCS) = (x \<noteq> 0xf0b8)"
proof -
  have "PPP_GOODFCS = ucast (0xf0b8 :: u_short)" by (simp add: PPP_GOODFCS_def)
  show ?thesis unfolding \<open>PPP_GOODFCS = ucast (0xf0b8 :: u_short)\<close> ucast_u16_u32_inj ..
qed

text \<open>
  C3, amended. A flag that the receive map marks, whatever \<open>in_escaped\<close> is. In a state up
  to ADDRESS it is ignored: no counter and no buffer changes. In CONTROL, PROTOCOL1 or
  PROTOCOL2 the partial frame is dropped and the length-error counter grows by one. In
  DATA with a running FCS other than \<open>0xF0B8\<close> the frame is dropped and the check-error
  counter grows by one. Whenever the processing of the flag returns, the state is
  ADDRESS (not START), the running FCS is \<open>0xFFFF\<close> and \<open>in_escaped\<close> is clear.
\<close>

theorem flag_dispositions:
  assumes "ESCAPE_P (in_accm pcrx) PPP_FLAG \<noteq> 0"
  shows "(pd_num (in_state pcrx) \<le> pd_num PDADDRESS \<longrightarrow>
            pppos_input_byte opt PPP_FLAG pcrx w =
              Some (Inr (pcrx\<lparr>in_fcs := 0xffff, in_state := PDADDRESS, in_escaped := False\<rparr>, w)))
       \<and> (pd_num PDADDRESS < pd_num (in_state pcrx) \<and> pd_num (in_state pcrx) < pd_num PDDATA \<longrightarrow>
            pppos_input_byte opt PPP_FLAG pcrx w =
              Some (Inr (pcrx\<lparr>in_head := NULL, in_tail := NULL, in_fcs := 0xffff,
                               in_state := PDADDRESS, in_escaped := False\<rparr>,
                         w\<lparr>link_lenerr := Suc (link_lenerr w), freed := freed w @ dropped pcrx,
                           vj_uncompress_errs := Suc (vj_uncompress_errs w),
                           link_drop := Suc (link_drop w),
                           ifindiscards := Suc (ifindiscards w)\<rparr>)))
       \<and> (in_state pcrx = PDDATA \<and> in_fcs pcrx \<noteq> 0xf0b8 \<longrightarrow>
            pppos_input_byte opt PPP_FLAG pcrx w =
              Some (Inr (pcrx\<lparr>in_head := NULL, in_tail := NULL, in_fcs := 0xffff,
                               in_state := PDADDRESS, in_escaped := False\<rparr>,
                         w\<lparr>link_chkerr := Suc (link_chkerr w), freed := freed w @ dropped pcrx,
                           vj_uncompress_errs := Suc (vj_uncompress_errs w),
                           link_drop := Suc (link_drop w),
                           ifindiscards := Suc (ifindiscards w)\<rparr>)))
       \<and> (\<forall>pcrx' w'. pppos_input_byte opt PPP_FLAG pcrx w = Some (Inr (pcrx', w')) \<longrightarrow>
            in_state pcrx' = PDADDRESS \<and> in_fcs pcrx' = 0xffff \<and> \<not> in_escaped pcrx')"
  unfolding input_flag [OF assms]
proof (intro conjI impI allI)
  assume "pd_num (in_state pcrx) \<le> pd_num PDADDRESS"
  then show "on_flag pcrx w =
      Some (Inr (pcrx\<lparr>in_fcs := 0xffff, in_state := PDADDRESS, in_escaped := False\<rparr>, w))"
    by (simp add: on_flag_def PPP_INITFCS_def)
next
  assume "pd_num PDADDRESS < pd_num (in_state pcrx) \<and> pd_num (in_state pcrx) < pd_num PDDATA"
  then have "\<not> pd_num (in_state pcrx) \<le> pd_num PDADDRESS" "pd_num (in_state pcrx) < pd_num PDDATA"
    by simp_all
  then show "on_flag pcrx w =
      Some (Inr (pcrx\<lparr>in_head := NULL, in_tail := NULL, in_fcs := 0xffff,
                       in_state := PDADDRESS, in_escaped := False\<rparr>,
                 w\<lparr>link_lenerr := Suc (link_lenerr w), freed := freed w @ dropped pcrx,
                   vj_uncompress_errs := Suc (vj_uncompress_errs w),
                   link_drop := Suc (link_drop w),
                   ifindiscards := Suc (ifindiscards w)\<rparr>))"
    by (simp add: on_flag_def pppos_drop_eq PPP_INITFCS_def)
next
  assume "in_state pcrx = PDDATA \<and> in_fcs pcrx \<noteq> 0xf0b8"
  then show "on_flag pcrx w =
      Some (Inr (pcrx\<lparr>in_head := NULL, in_tail := NULL, in_fcs := 0xffff,
                       in_state := PDADDRESS, in_escaped := False\<rparr>,
                 w\<lparr>link_chkerr := Suc (link_chkerr w), freed := freed w @ dropped pcrx,
                   vj_uncompress_errs := Suc (vj_uncompress_errs w),
                   link_drop := Suc (link_drop w),
                   ifindiscards := Suc (ifindiscards w)\<rparr>))"
    by (simp add: on_flag_def pppos_drop_eq PPP_INITFCS_def good_fcs_test)
next
  fix pcrx' w'
  assume "on_flag pcrx w = Some (Inr (pcrx', w'))"
  from on_flag_state [OF this]
  show "in_state pcrx' = PDADDRESS" "in_fcs pcrx' = 0xffff" "\<not> in_escaped pcrx'" by simp_all
qed

lemma connected_flag: "ESCAPE_P (in_accm (rx connected)) PPP_FLAG \<noteq> 0"
  by (simp add: connected_eq ESCAPE_P_def ppp_accm_mask_def PPP_FLAG_def)

text \<open>
  C3, as stated, fails: a flag processed in state START leaves the machine in state
  ADDRESS, which is what the code assigns after every flag.
\<close>

theorem flag_dispositions_counterexample:
  "pppos_input_byte opts4 PPP_FLAG ((rx connected)\<lparr>in_state := PDSTART\<rparr>) sys0 =
     Some (Inr ((rx connected)\<lparr>in_fcs := 0xffff, in_state := PDADDRESS, in_escaped := False\<rparr>, sys0))
   \<and> PDADDRESS \<noteq> PDSTART"
  using connected_flag
  by (simp add: pppos_input_byte_def on_flag_def PPP_INITFCS_def PPP_FLAG_def PPP_ESCAPE_def)

theorem flag_dispositions_witness:
  "pppos_input_byte opts4 PPP_FLAG (rx connected) sys0 =
     Some (Inr ((rx connected)\<lparr>in_fcs := 0xffff, in_state := PDADDRESS, in_escaped := False\<rparr>, sys0))
   \<and> pppos_input_byte opts4 PPP_FLAG ((rx connected)\<lparr>in_state := PDPROTOCOL2\<rparr>) sys0 =
     Some (Inr ((rx connected)\<lparr>in_fcs := 0xffff, in_state := PDADDRESS, in_escaped := False\<rparr>,
                sys0\<lparr>link_lenerr := 1, vj_uncompress_errs := 1, link_drop := 1, ifindiscards := 1\<rparr>))
   \<and> pppos_input_byte opts4 PPP_FLAG
        ((rx connected)\<lparr>in_state := PDDATA, in_head := 1, in_tail := 1\<rparr>)
        (put_pbuf [0, 0x21, 0x45, 0] 3 NULL sys0) =
     Some (Inr ((rx connected)\<lparr>in_fcs := 0xffff, in_state := PDADDRESS, in_escaped := False\<rparr>,
                (put_pbuf [0, 0x21, 0x45, 0] 3 NULL sys0)
                  \<lparr>link_chkerr := 1, freed := [1], vj_uncompress_errs := 1, link_drop := 1,
                   ifindiscards := 1\<rparr>))"
proof -
  let ?r2 = "(rx connected)\<lparr>in_state := PDPROTOCOL2\<rparr>"
  let ?r3 = "(rx connected)\<lparr>in_state := PDDATA, in_head := 1, in_tail := 1\<rparr>"
  let ?w3 = "put_pbuf [0, 0x21, 0x45, 0] 3 NULL sys0"
  have m: "ESCAPE_P (in_accm ?r2) PPP_FLAG \<noteq> 0" "ESCAPE_P (in_accm ?r3) PPP_FLAG \<noteq> 0"
    using connected_flag by simp_all
  have s: "pd_num (in_state (rx connected)) \<le> pd_num PDADDRESS"
    "pd_num PDADDRESS < pd_num (in_state ?r2) \<and> pd_num (in_state ?r2) < pd_num PDDATA"
    "in_state ?r3 = PDDATA \<and> in_fcs ?r3 \<noteq> 0xf0b8"
    by (simp_all add: connected_eq)
  from flag_dispositions [OF connected_flag, of opts4 sys0]
       flag_dispositions [OF m(1), of opts4 sys0]
       flag_dispositions [OF m(2), of opts4 ?w3] s
  show ?thesis
    by (simp add: dropped_def connected_eq sys0_def put_pbuf_def)
qed

subsection \<open>A flag right after the protocol field\<close>

text \<open>
  C6 does not hold of the code. After \<open>pppos_connect\<close>, the four bytes
  \<open>7E 00 00 7E\<close> take the machine through ADDRESS and PROTOCOL2 into DATA with no byte
  stored; the running FCS of \<open>00 00\<close> is \<open>0xF0B8\<close>; the closing flag reaches the branch
  that trims the checksum and dereferences \<open>in_tail\<close>, which is null.
\<close>

theorem null_tail_at_delivery:
  "pppos_input opts4 [0x7e, 0x00, 0x00, 0x7e] connected sys0 = Some (Inl NullDeref)"
  by (simp add: pppos_input_def pppos_input_byte_def on_flag_def pass_on_def connected_eq
      ESCAPE_P_def ppp_accm_mask_def PPP_FLAG_def PPP_ESCAPE_def PPP_INITFCS_def PPP_GOODFCS_def
      case_PDADDRESS_def case_PDCONTROL_def case_PDPROTOCOL1_def case_PDPROTOCOL2_def
      PPP_ALLSTATIONS_def PPP_UI_def PPP_FCS_def fcstab_def)

subsection \<open>The transmission after a short write\<close>

text \<open>
  C7 does not hold of the code in full. On the short write \<open>pppos_xmit\<close> does count the
  error, set \<open>last_xmit\<close> to 0, free the chain and stop writing, without a retry. But
  the next transmission, made at tick 50 with \<open>PPP_MAXIDLEFLAG\<close> = 100 and
  \<open>last_xmit\<close> = 0, fails the idle check \<open>50 - 0 \<ge> 100\<close>: the bytes it sends begin
  with the address byte, not with a flag.
\<close>

theorem short_write_then_no_flag:
  "pppos_xmit 1 connected short_sys =
     Some (Inr (connected\<lparr>last_xmit := 0\<rparr>,
                short_sys\<lparr>wire := [1, 2, 3], sio_calls := 1, link_err := 1, ifoutdiscards := 1,
                          freed := [1]\<rparr>))
   \<and> sent (pppos_link_netif_output_callback opts4 vj_none 1 0xC021 (connected\<lparr>last_xmit := 0\<rparr>)
             ((put_pbuf [9, 1, 0, 4] 4 NULL sys0)\<lparr>jiffies := 50\<rparr>))
       = Some (ERR_OK, [0xff, 0x03, 0xc0, 0x21, 9, 1, 0, 4, 0x09, 0x50, 0x7e])"
proof -
  have c: "chain (heap short_sys) 1 ([] @ 1 # [])"
    "\<forall>i<length ([]::ptr list). len (heap short_sys ([] ! i)) \<le> sio_cap short_sys (sio_calls short_sys + i)"
    "sio_cap short_sys (sio_calls short_sys + length ([]::ptr list)) < len (heap short_sys 1)"
    by (simp_all add: short_sys_def put_pbuf_def sys0_def)
  have 1: "pppos_xmit 1 connected short_sys =
     Some (Inr (connected\<lparr>last_xmit := 0\<rparr>,
                short_sys\<lparr>wire := [1, 2, 3], sio_calls := 1, link_err := 1, ifoutdiscards := 1,
                          freed := [1]\<rparr>))"
    unfolding pppos_xmit_short [OF c]
    by (simp add: short_sys_def put_pbuf_def sys0_def chain_data_def)
  let ?w = "(put_pbuf [9, 1, 0, 4] 4 NULL sys0)\<lparr>jiffies := 50\<rparr>"
  let ?p = "connected\<lparr>last_xmit := 0\<rparr>"
  have h: "2 \<le> PBUF_POOL_BUFSIZE opts4" "\<forall>k. pool ?w k"
    "\<forall>k. PBUF_POOL_BUFSIZE opts4 \<le> sio_cap ?w k"
    "chain (heap ?w) 1 [1]"
    "\<forall>q\<in>set [1]. q \<le> brk ?w \<and> len (heap ?w q) \<le> length (payload (heap ?w q))"
    "\<not> (0xC021 = PPP_IP \<and> vj_enabled ?p)"
    by (simp_all add: opts4_def put_pbuf_def sys0_def PPP_IP_def)
  have fr: "tx_frame (link_idle opts4 ?p ?w) (out_accm ?p)
              (tx_header ?p 0xC021 @ chain_data (heap ?w) [1])
           = [0xff, 0x03, 0xc0, 0x21, 9, 1, 0, 4, 0x09, 0x50, 0x7e]"
    by (simp add: tx_frame_def fcs_bytes_def link_idle_def sys_jiffies_def
          connected_eq put_pbuf_def sys0_def opts4_def
          tx_header_def chain_data_def pbuf_data_def esc_def ESCAPE_P_def ppp_accm_mask_def
          PPP_FLAG_def PPP_ESCAPE_def PPP_TRANS_def PPP_ALLSTATIONS_def PPP_UI_def
          PPP_INITFCS_def PPP_FCS_def fcstab_def)
  have w: "wire ?w = []" by (simp add: put_pbuf_def sys0_def)
  from netif_output_sent [OF h, of vj_none] obtain w' where
    "pppos_link_netif_output_callback opts4 vj_none 1 0xC021 ?p ?w
       = Some (Inr (ERR_OK, ?p\<lparr>last_xmit := jiffies ?w\<rparr>, w'))"
    "wire w' = [0xff, 0x03, 0xc0, 0x21, 9, 1, 0, 4, 0x09, 0x50, 0x7e]"
    unfolding fr w by auto
  then have 2: "sent (pppos_link_netif_output_callback opts4 vj_none 1 0xC021 ?p ?w)
       = Some (ERR_OK, [0xff, 0x03, 0xc0, 0x21, 9, 1, 0, 4, 0x09, 0x50, 0x7e])"
    by (simp add: sent_def)
  from 1 2 show ?thesis by blast
qed

subsection \<open>Linking a buffer behind a chain\<close>

lemma pbuf_cat_loop_chain:
  "chain h p cs \<Longrightarrow> cs \<noteq> [] \<Longrightarrow> distinct cs \<Longrightarrow> t \<notin> set cs \<Longrightarrow>
   pbuf_cat_loop p t h =
     Some (last cs, \<lambda>q. if q \<in> set (butlast cs)
                        then (h q)\<lparr>tot_len := tot_len (h q) + tot_len (h t)\<rparr> else h q)"
proof (induction cs arbitrary: p h)
  case Nil
  then show ?case by simp
next
  case (Cons q qs)
  from Cons.prems have pq: "p = q" "q \<noteq> NULL" and ch: "chain h (next (h q)) qs"
    and d: "distinct qs" "q \<notin> set qs" "t \<notin> set qs" "t \<noteq> q" by auto
  show ?case
  proof (cases "qs = []")
    case True
    with ch have "next (h q) = NULL" by simp
    with pq True show ?thesis by (subst pbuf_cat_loop.simps) (simp add: fun_eq_iff)
  next
    case False
    then obtain r rs where qs: "qs = r # rs" by (cases qs) auto
    with ch have nn: "next (h q) = r" "r \<noteq> NULL" by simp_all
    let ?h = "h(q := (h q)\<lparr>tot_len := tot_len (h q) + tot_len (h t)\<rparr>)"
    have "chain ?h (next (h q)) qs = chain h (next (h q)) qs"
      by (rule chain_heap_cong) (use d in auto)
    with ch have ch': "chain ?h (next (h q)) qs" by simp
    have "pbuf_cat_loop p t h = pbuf_cat_loop (next (h q)) t ?h"
      by (subst pbuf_cat_loop.simps) (simp add: pq nn)
    also have "\<dots> = Some (last qs, \<lambda>x. if x \<in> set (butlast qs)
                        then (?h x)\<lparr>tot_len := tot_len (?h x) + tot_len (?h t)\<rparr> else ?h x)"
      by (rule Cons.IH [OF ch' False d(1) d(3)])
    also have "\<dots> = Some (last (q # qs), \<lambda>x. if x \<in> set (butlast (q # qs))
                        then (h x)\<lparr>tot_len := tot_len (h x) + tot_len (h t)\<rparr> else h x)"
      using False d by (auto simp add: fun_eq_iff dest: in_set_butlastD)
    finally show ?thesis .
  qed
qed

lemma pbuf_cat_chain:
  assumes "chain (heap w) p cs" "cs \<noteq> []" "distinct cs" "t \<notin> set cs" "t \<noteq> NULL"
  shows "pbuf_cat p t w = Some (w\<lparr>heap := cat_heap (heap w) cs t\<rparr>)"
proof -
  from assms(1,2) have p: "p \<noteq> NULL" by (cases cs) auto
  have l: "last cs \<notin> set (butlast cs)" using assms(2,3)
    by (metis distinct_butlast in_butlast_neq_last)
  have "(\<lambda>q. if q \<in> set (butlast cs)
                        then (heap w q)\<lparr>tot_len := tot_len (heap w q) + tot_len (heap w t)\<rparr> else heap w q)
       (last cs := (heap w (last cs))\<lparr>tot_len := tot_len (heap w (last cs)) + tot_len (heap w t), next := t\<rparr>)
     = cat_heap (heap w) cs t"
    using assms(2,3,4) l
    by (auto simp add: fun_eq_iff cat_heap_def dest: in_set_butlastD in_butlast_neq_last)
       (metis append_butlast_last_id in_set_conv_decomp_last set_ConsD set_append Un_iff insert_iff list.set(2))+
  moreover have "t \<notin> set (butlast cs)" using assms(4) by (auto dest: in_set_butlastD)
  ultimately show ?thesis
    using p assms(5) l
    by (simp add: pbuf_cat_def pbuf_cat_loop_chain [OF assms(1-4)])
qed

subsection \<open>A data byte\<close>



lemma rx_pktD:
  assumes "rx_pkt opt w pcrx cs ds"
  shows "in_head pcrx \<noteq> NULL" "in_tail pcrx \<noteq> NULL" "in_tail pcrx \<le> brk w"
    "length (payload (heap w (in_tail pcrx))) = PBUF_POOL_BUFSIZE opt"
    "0 < len (heap w (in_tail pcrx))" "len (heap w (in_tail pcrx)) \<le> PBUF_POOL_BUFSIZE opt"
    "next (heap w (in_tail pcrx)) = NULL"
    "chain_data (heap w) (cs @ [in_tail pcrx]) = proto_bytes (in_protocol pcrx) @ ds" "ds \<noteq> []"
    "cs = [] \<Longrightarrow> in_tail pcrx = in_head pcrx"
    "cs \<noteq> [] \<Longrightarrow> chain (heap w) (in_head pcrx) cs"
    "distinct cs" "in_tail pcrx \<notin> set cs"
    "p \<in> set cs \<Longrightarrow> p \<le> brk w"
    "p \<in> set cs \<Longrightarrow> length (payload (heap w p)) = PBUF_POOL_BUFSIZE opt"
    "p \<in> set cs \<Longrightarrow> len (heap w p) = PBUF_POOL_BUFSIZE opt"
    "cs \<noteq> [] \<Longrightarrow> tot_len (heap w (in_head pcrx)) = PBUF_POOL_BUFSIZE opt * length cs"
  using assms by (auto simp add: rx_pkt_def split: if_splits)


lemma rx_pkt_head: "rx_pkt opt w pcrx cs ds \<Longrightarrow> cs \<noteq> [] \<Longrightarrow> in_head pcrx = hd cs"
  by (cases cs) (auto simp add: rx_pkt_def)







subsection \<open>Shrinking a chain\<close>

lemma pbuf_realloc_loop_full:
  "chain h p (as @ l # rs) \<Longrightarrow> distinct (as @ [l]) \<Longrightarrow> \<forall>q\<in>set as. len (h q) = B \<Longrightarrow>
   0 < r \<Longrightarrow> r \<le> len (h l) \<Longrightarrow>
   pbuf_realloc_loop p (B * length as + r) shrink h =
     Some (l, r, \<lambda>q. if q \<in> set as then (h q)\<lparr>tot_len := tot_len (h q) - shrink\<rparr> else h q)"
proof (induction as arbitrary: p h)
  case Nil
  then show ?case by (subst pbuf_realloc_loop.simps) (simp add: fun_eq_iff)
next
  case (Cons a as)
  from Cons.prems have pa: "p = a" "a \<noteq> NULL" and ch: "chain h (next (h a)) (as @ l # rs)"
    and d: "distinct (as @ [l])" "a \<notin> set as" "a \<noteq> l" and la: "len (h a) = B"
    and ls: "\<forall>q\<in>set as. len (h q) = B" by auto
  let ?h = "h(a := (h a)\<lparr>tot_len := tot_len (h a) - shrink\<rparr>)"
  have nxt: "next (?h q) = next (h q)" for q by simp
  have ch': "chain ?h (next (h a)) (as @ l # rs)"
    using ch chain_next_cong [of "as @ l # rs" ?h h "next (h a)"] nxt by blast
  have ls': "\<forall>q\<in>set as. len (?h q) = B" using ls by simp
  have rl: "r \<le> len (?h l)" using Cons.prems(5) d(3) by simp
  have "pbuf_realloc_loop p (B * length (a # as) + r) shrink h
      = pbuf_realloc_loop (next (h a)) (B * length as + r) shrink ?h"
    using pa la Cons.prems(4) by (subst pbuf_realloc_loop.simps) simp
  also have "\<dots> = Some (l, r, \<lambda>q. if q \<in> set as then (?h q)\<lparr>tot_len := tot_len (?h q) - shrink\<rparr> else ?h q)"
    by (rule Cons.IH [OF ch' d(1) ls' Cons.prems(4) rl])
  also have "\<dots> = Some (l, r, \<lambda>q. if q \<in> set (a # as) then (h q)\<lparr>tot_len := tot_len (h q) - shrink\<rparr> else h q)"
    using d by (auto simp add: fun_eq_iff)
  finally show ?case .
qed

subsection \<open>Handing the packet over\<close>

lemma chain_data_full:
  "\<forall>q\<in>set cs. length (payload (h q)) = B \<and> len (h q) = B \<Longrightarrow> length (chain_data h cs) = B * length cs"
  by (induction cs) (simp_all add: chain_data_def pbuf_data_def)

lemma rx_pkt_total:
  assumes "rx_pkt opt w pcrx cs ds"
  shows "PBUF_POOL_BUFSIZE opt * length cs + len (heap w (in_tail pcrx)) = 2 + length ds"
proof -
  note D = rx_pktD [OF assms]
  have "length (chain_data (heap w) cs) = PBUF_POOL_BUFSIZE opt * length cs"
    by (rule chain_data_full) (use D(15,16) in simp)
  moreover have "length (pbuf_data (heap w (in_tail pcrx))) = len (heap w (in_tail pcrx))"
    using D(4,6) by (simp add: pbuf_data_def)
  moreover have "length (chain_data (heap w) (cs @ [in_tail pcrx])) = 2 + length ds"
    unfolding D(8) by (simp add: proto_bytes_def)
  ultimately show ?thesis by (simp add: chain_data_snoc)
qed

lemma chain_last_next: "chain h p ps \<Longrightarrow> ps \<noteq> [] \<Longrightarrow> next (h (last ps)) = NULL"
  by (induction ps arbitrary: p) auto

lemma pass_on_single:
  assumes pkt: "rx_pkt opt w pcrx [] ds"
  shows "\<exists>w'. pass_on pcrx w = Some (Inr (pcrx\<lparr>in_head := NULL, in_tail := NULL\<rparr>, w')) \<and>
           delivered w' = delivered w @ [in_head pcrx] \<and>
           chain (heap w') (in_head pcrx) [in_head pcrx] \<and>
           chain_data (heap w') [in_head pcrx] = take (length ds) (proto_bytes (in_protocol pcrx) @ ds) \<and>
           tot_len (heap w' (in_head pcrx)) = length ds"
proof -
  note D = rx_pktD [OF pkt]
  let ?t = "in_tail pcrx"
  have th: "in_head pcrx = ?t" using D(10) by simp
  have lt: "len (heap w ?t) = 2 + length ds" using rx_pkt_total [OF pkt] by simp
  let ?w = "w\<lparr>heap := (heap w)(?t := (heap w ?t)\<lparr>len := length ds, tot_len := length ds\<rparr>)\<rparr>"
  have 1: "pass_on pcrx w = Some (Inr (pcrx\<lparr>in_head := NULL, in_tail := NULL\<rparr>, ppp_input ?t ?w))"
    using D(2,9) by (simp add: pass_on_def Let_def th lt)
  have "take (length ds) (payload (heap w ?t)) = take (length ds) (take (2 + length ds) (payload (heap w ?t)))"
    by simp
  also have "\<dots> = take (length ds) (proto_bytes (in_protocol pcrx) @ ds)"
    using D(8) by (simp add: chain_data_def pbuf_data_def lt)
  finally have 2: "chain_data (heap (ppp_input ?t ?w)) [?t] = take (length ds) (proto_bytes (in_protocol pcrx) @ ds)"
    by (simp add: chain_data_def pbuf_data_def ppp_input_def)
  have 3: "chain (heap (ppp_input ?t ?w)) ?t [?t]" using D(2,7) by (simp add: ppp_input_def)
  have 4: "delivered (ppp_input ?t ?w) = delivered w @ [?t]"
    "tot_len (heap (ppp_input ?t ?w) ?t) = length ds" by (simp_all add: ppp_input_def)
  from 1 2 3 4 show ?thesis unfolding th by blast
qed

lemma pass_on_long_tail:
  assumes pkt: "rx_pkt opt w pcrx cs ds" and ne: "cs \<noteq> []"
    and long: "2 < len (heap w (in_tail pcrx))"
  shows "\<exists>w'. pass_on pcrx w = Some (Inr (pcrx\<lparr>in_head := NULL, in_tail := NULL\<rparr>, w')) \<and>
           delivered w' = delivered w @ [in_head pcrx] \<and>
           chain (heap w') (in_head pcrx) (cs @ [in_tail pcrx]) \<and>
           chain_data (heap w') (cs @ [in_tail pcrx])
             = take (length ds) (proto_bytes (in_protocol pcrx) @ ds) \<and>
           tot_len (heap w' (in_head pcrx)) = length ds"
proof -
  note D = rx_pktD [OF pkt]
  let ?t = "in_tail pcrx" and ?h = "in_head pcrx"
  let ?k = "len (heap w ?t) - 2"
  let ?w2 = "w\<lparr>heap := (heap w)(?t := (heap w ?t)\<lparr>len := ?k, tot_len := ?k\<rparr>)\<rparr>"
  let ?w3 = "?w2\<lparr>heap := cat_heap (heap ?w2) cs ?t\<rparr>"
  let ?w = "ppp_input ?h ?w3"
  have hd: "?h = hd cs" "?h \<in> set cs" using rx_pkt_head [OF pkt ne] ne by simp_all
  have th: "?t \<noteq> ?h" using hd D(13) by auto
  have "chain (heap ?w2) ?h cs = chain (heap w) ?h cs"
    by (rule chain_heap_cong) (use D(13) in auto)
  with D(11) [OF ne] have ch2: "chain (heap ?w2) ?h cs" by simp
  have cat: "pbuf_cat ?h ?t ?w2 = Some ?w3"
    by (rule pbuf_cat_chain [OF ch2 ne D(12) D(13) D(2)])
  have 1: "pass_on pcrx w = Some (Inr (pcrx\<lparr>in_head := NULL, in_tail := NULL\<rparr>, ?w))"
    using D(2) long th cat by (simp add: pass_on_def Let_def)
  have ht: "heap ?w ?t = (heap w ?t)\<lparr>len := ?k, tot_len := ?k\<rparr>"
    using D(13) by (simp add: cat_heap_def ppp_input_def)
  have hq: "heap ?w q = (heap w q)\<lparr>tot_len := tot_len (heap w q) + ?k,
                                   next := (if q = last cs then ?t else next (heap w q))\<rparr>"
    if "q \<in> set cs" for q
    using that D(13) by (auto simp add: cat_heap_def ppp_input_def)
  have tot: "PBUF_POOL_BUFSIZE opt * length cs + len (heap w ?t) = 2 + length ds"
    by (rule rx_pkt_total [OF pkt])
  have 2: "chain (heap ?w) ?h (cs @ [?t])"
  proof (rule chain_snoc [OF D(11) [OF ne] ne D(13) D(2) D(12)])
    show "next (heap ?w ?t) = NULL" using D(7) ht by simp
    have "last cs \<in> set cs" using ne by simp
    from hq [OF this] show "next (heap ?w (last cs)) = ?t" by simp
    show "next (heap ?w q) = next (heap w q)" if "q \<in> set (butlast cs)" for q
    proof -
      from that have "q \<in> set cs" by (rule in_set_butlastD)
      from hq [OF this] show ?thesis using in_butlast_neq_last [OF D(12) that] by simp
    qed
  qed
  have "pbuf_data (heap ?w q) = pbuf_data (heap w q)" if "q \<in> set cs" for q
    using hq [OF that] by (simp add: pbuf_data_def)
  then have "chain_data (heap ?w) cs = chain_data (heap w) cs" by (rule chain_data_cong)
  moreover have "pbuf_data (heap ?w ?t) = take ?k (pbuf_data (heap w ?t))"
    using ht by (simp add: pbuf_data_def min_def)
  moreover have "length (chain_data (heap w) cs) = PBUF_POOL_BUFSIZE opt * length cs"
    by (rule chain_data_full) (use D(15,16) in simp)
  moreover have "length ds = PBUF_POOL_BUFSIZE opt * length cs + ?k" using tot long by simp
  ultimately have "chain_data (heap ?w) (cs @ [?t])
      = take (length ds) (chain_data (heap w) cs @ pbuf_data (heap w ?t))"
    unfolding chain_data_snoc by simp
  moreover have "chain_data (heap w) cs @ pbuf_data (heap w ?t) = proto_bytes (in_protocol pcrx) @ ds"
    using D(8) by (simp only: chain_data_snoc)
  ultimately have 3: "chain_data (heap ?w) (cs @ [?t]) = take (length ds) (proto_bytes (in_protocol pcrx) @ ds)"
    by (simp only:)
  have 4: "tot_len (heap ?w ?h) = length ds"
    using hq [OF hd(2)] D(17) [OF ne] tot long by simp
  have 5: "delivered ?w = delivered w @ [?h]" by (simp add: ppp_input_def)
  from 1 2 3 4 5 show ?thesis by blast
qed

lemma pass_on_short_tail:
  assumes pkt: "rx_pkt opt w pcrx cs ds" and ne: "cs \<noteq> []"
    and short: "len (heap w (in_tail pcrx)) \<le> 2"
    and big: "3 \<le> PBUF_POOL_BUFSIZE opt" and bound: "length ds + 2 < 65536"
  shows "\<exists>w'. pass_on pcrx w = Some (Inr (pcrx\<lparr>in_head := NULL, in_tail := NULL\<rparr>, w')) \<and>
           delivered w' = delivered w @ [in_head pcrx] \<and>
           chain (heap w') (in_head pcrx) cs \<and>
           chain_data (heap w') cs = take (length ds) (proto_bytes (in_protocol pcrx) @ ds) \<and>
           tot_len (heap w' (in_head pcrx)) = length ds"
proof -
  note D = rx_pktD [OF pkt]
  let ?t = "in_tail pcrx" and ?h = "in_head pcrx" and ?B = "PBUF_POOL_BUFSIZE opt"
  define as where "as = butlast cs"
  define l where "l = last cs"
  define r where "r = ?B + len (heap w ?t) - 2"
  have cs: "cs = as @ [l]" using ne by (simp add: as_def l_def)
  have lcs: "l \<in> set cs" "l \<notin> set as" "distinct as" using D(12) by (simp_all add: cs)
  have acs: "q \<in> set as \<Longrightarrow> q \<in> set cs" for q by (simp add: cs)
  let ?w1 = "w\<lparr>heap := (heap w)(?t := (heap w ?t)\<lparr>tot_len := len (heap w ?t)\<rparr>)\<rparr>"
  let ?w2 = "?w1\<lparr>heap := cat_heap (heap ?w1) cs ?t\<rparr>"
  have hd: "?h = hd cs" "?h \<in> set cs" using rx_pkt_head [OF pkt ne] ne by simp_all
  have th: "?t \<noteq> ?h" using hd D(13) by auto
  have "chain (heap ?w1) ?h cs = chain (heap w) ?h cs"
    by (rule chain_heap_cong) (use D(13) in auto)
  with D(11) [OF ne] have ch1: "chain (heap ?w1) ?h cs" by simp
  have cat: "pbuf_cat ?h ?t ?w1 = Some ?w2"
    by (rule pbuf_cat_chain [OF ch1 ne D(12) D(13) D(2)])
  have h2t: "heap ?w2 ?t = (heap w ?t)\<lparr>tot_len := len (heap w ?t)\<rparr>"
    using D(13) by (simp add: cat_heap_def)
  have h2q: "heap ?w2 q = (heap w q)\<lparr>tot_len := tot_len (heap w q) + len (heap w ?t),
                                    next := (if q = l then ?t else next (heap w q))\<rparr>"
    if "q \<in> set cs" for q
    using that D(13) by (auto simp add: cat_heap_def l_def)
  have tot: "?B * length cs + len (heap w ?t) = 2 + length ds"
    by (rule rx_pkt_total [OF pkt])
  have T: "tot_len (heap ?w2 ?h) = 2 + length ds"
    using h2q [OF hd(2)] D(17) [OF ne] tot by simp
  have arg: "(tot_len (heap ?w2 ?h) + 65536 - 2) mod 65536 = length ds"
    unfolding T using bound by simp
  have dsr: "length ds = ?B * length as + r"
    using tot big by (simp add: cs r_def)
  have r: "0 < r" "r \<le> ?B" using big short by (simp_all add: r_def)
  have ch2: "chain (heap ?w2) ?h (as @ l # [?t])"
  proof -
    have "chain (heap ?w2) ?h (cs @ [?t])"
    proof (rule chain_snoc [OF D(11) [OF ne] ne D(13) D(2) D(12)])
      show "next (heap ?w2 ?t) = NULL" using D(7) h2t by simp
      from h2q [OF lcs(1)] show "next (heap ?w2 (last cs)) = ?t" by (simp add: l_def)
      show "next (heap ?w2 q) = next (heap w q)" if "q \<in> set (butlast cs)" for q
      proof -
        from that have "q \<in> set cs" by (rule in_set_butlastD)
        from h2q [OF this] show ?thesis using in_butlast_neq_last [OF D(12) that]
          by (simp add: l_def)
      qed
    qed
    then show ?thesis by (simp add: cs)
  qed
  let ?H = "\<lambda>q. if q \<in> set as then (heap ?w2 q)\<lparr>tot_len := tot_len (heap ?w2 q) - 2\<rparr> else heap ?w2 q"
  have loop: "pbuf_realloc_loop ?h (?B * length as + r) 2 (heap ?w2) = Some (l, r, ?H)"
  proof (rule pbuf_realloc_loop_full [OF ch2])
    show "distinct (as @ [l])" using D(12) by (simp add: cs)
    show "\<forall>q\<in>set as. len (heap ?w2 q) = ?B"
    proof
      fix q assume "q \<in> set as"
      then have q: "q \<in> set cs" by (rule acs)
      from h2q [OF q] D(16) [OF q] show "len (heap ?w2 q) = ?B" by simp
    qed
    show "0 < r" by (rule r)
    from h2q [OF lcs(1)] D(16) [OF lcs(1)] r(2) show "r \<le> len (heap ?w2 l)" by simp
  qed
  have nl: "next (heap ?w2 l) = ?t" using h2q [OF lcs(1)] by simp
  have "\<exists>w3. pbuf_realloc ?h (length ds) ?w2 = Some w3 \<and> delivered w3 = delivered w \<and>
          heap w3 = ?H(l := (?H l)\<lparr>tot_len := r, len := r, next := NULL\<rparr>)"
  proof -
    have "\<not> tot_len (heap ?w2 ?h) \<le> length ds" unfolding T by simp
    moreover have "tot_len (heap ?w2 ?h) - length ds = 2" unfolding T by simp
    ultimately show ?thesis
      using loop nl D(2) lcs(2) unfolding dsr [symmetric]
      by (simp add: pbuf_realloc_def Let_def pbuf_free_def fun_eq_iff)
  qed
  then obtain w3 where re: "pbuf_realloc ?h (length ds) ?w2 = Some w3"
    and dl: "delivered w3 = delivered w"
    and h3: "heap w3 = ?H(l := (?H l)\<lparr>tot_len := r, len := r, next := NULL\<rparr>)" by blast
  let ?w = "ppp_input ?h w3"
  have 1: "pass_on pcrx w = Some (Inr (pcrx\<lparr>in_head := NULL, in_tail := NULL\<rparr>, ?w))"
    using D(1,2,5) short th cat re arg by (simp add: pass_on_def Let_def)
  have fl: "next (heap ?w l) = NULL" "len (heap ?w l) = r" "tot_len (heap ?w l) = r"
    "payload (heap ?w l) = payload (heap w l)"
    using h2q [OF lcs(1)] lcs(2) by (simp_all add: ppp_input_def h3)
  have fq: "next (heap ?w q) = next (heap w q)" "len (heap ?w q) = len (heap w q)"
    "tot_len (heap ?w q) = tot_len (heap w q) + len (heap w ?t) - 2"
    "payload (heap ?w q) = payload (heap w q)" if "q \<in> set as" for q
    using h2q [OF acs [OF that]] that lcs(2) by (auto simp add: ppp_input_def h3)
  have 2: "chain (heap ?w) ?h cs"
  proof -
    have "chain (heap ?w) ?h cs = chain (heap w) ?h cs"
    proof (rule chain_next_cong)
      fix q assume "q \<in> set cs"
      then consider "q \<in> set as" | "q = l" by (auto simp add: cs)
      then show "next (heap ?w q) = next (heap w q)"
      proof cases
        case 1
        then show ?thesis by (rule fq)
      next
        case 2
        have "next (heap w (last cs)) = NULL" by (rule chain_last_next [OF D(11) [OF ne] ne])
        then show ?thesis unfolding 2 using fl(1) by (simp add: l_def)
      qed
    qed
    with D(11) [OF ne] show ?thesis by simp
  qed
  have "pbuf_data (heap ?w q) = pbuf_data (heap w q)" if "q \<in> set as" for q
    using fq(2,4) [OF that] by (simp add: pbuf_data_def)
  then have "chain_data (heap ?w) as = chain_data (heap w) as" by (rule chain_data_cong)
  moreover have "pbuf_data (heap ?w l) = take r (pbuf_data (heap w l))"
    using fl(2,4) r(2) D(16) [OF lcs(1)] by (simp add: pbuf_data_def)
  moreover have "length (chain_data (heap w) as) = ?B * length as"
    by (rule chain_data_full) (use D(15,16) acs in simp)
  moreover have "length (pbuf_data (heap w l)) = ?B"
    using D(15,16) [OF lcs(1)] by (simp add: pbuf_data_def)
  ultimately have "chain_data (heap ?w) cs
      = take (length ds) (chain_data (heap w) cs @ pbuf_data (heap w ?t))"
    using r(2) unfolding cs chain_data_snoc dsr by simp
  moreover have "chain_data (heap w) cs @ pbuf_data (heap w ?t) = proto_bytes (in_protocol pcrx) @ ds"
    using D(8) by (simp only: chain_data_snoc)
  ultimately have 3: "chain_data (heap ?w) cs = take (length ds) (proto_bytes (in_protocol pcrx) @ ds)"
    by (simp only:)
  have 4: "tot_len (heap ?w ?h) = length ds"
  proof (cases "as = []")
    case True
    then have "?h = l" using hd(1) by (simp add: cs)
    then show ?thesis using fl(3) dsr True by simp
  next
    case False
    then have ha: "?h \<in> set as" using hd(1) by (simp add: cs)
    have "tot_len (heap w ?h) + len (heap w ?t) = 2 + length ds"
      using D(17) [OF ne] tot by simp
    then show ?thesis using fq(3) [OF ha] by simp
  qed
  have 5: "delivered ?w = delivered w @ [?h]" by (simp add: ppp_input_def dl)
  from 1 2 3 4 5 show ?thesis by blast
qed

lemma pass_on_delivers:
  assumes pkt: "rx_pkt opt w pcrx cs ds"
    and big: "3 \<le> PBUF_POOL_BUFSIZE opt" and bound: "length ds + 2 < 65536"
  shows "\<exists>w' ps. pass_on pcrx w = Some (Inr (pcrx\<lparr>in_head := NULL, in_tail := NULL\<rparr>, w')) \<and>
           delivered w' = delivered w @ [in_head pcrx] \<and>
           chain (heap w') (in_head pcrx) ps \<and>
           chain_data (heap w') ps = take (length ds) (proto_bytes (in_protocol pcrx) @ ds) \<and>
           tot_len (heap w' (in_head pcrx)) = length ds"
proof (cases "cs = []")
  case True
  from pass_on_single [OF pkt [unfolded True]] show ?thesis by blast
next
  case ne: False
  show ?thesis
  proof (cases "2 < len (heap w (in_tail pcrx))")
    case True
    from pass_on_long_tail [OF pkt ne True] show ?thesis by blast
  next
    case False
    then have "len (heap w (in_tail pcrx)) \<le> 2" by simp
    from pass_on_short_tail [OF pkt ne this big bound] show ?thesis by blast
  qed
qed

lemma take2_Cons: "2 \<le> n \<Longrightarrow> take n (a # b # xs) = a # b # take (n - 2) xs"
  by (cases n; cases "n - 1") auto

lemma on_flag_good:
  "in_state pcrx = PDDATA \<Longrightarrow> in_fcs pcrx = 0xf0b8 \<Longrightarrow>
   pass_on pcrx w = Some (Inr (pcrx', w')) \<Longrightarrow>
   on_flag pcrx w = Some (Inr (pcrx'\<lparr>in_fcs := 0xffff, in_state := PDADDRESS, in_escaped := False\<rparr>, w'))"
  using good_fcs_test [of "in_fcs pcrx"] by (simp add: on_flag_def PPP_INITFCS_def)

subsection \<open>Delivery of a good frame\<close>

lemma mid_reached:
  "pppos_input opts4 [0x7e, 0xff, 0x03, 0xc0, 0x21, 9, 1, 0, 4, 7, 0x56, 0x19] connected sys0
     = Some (Inr (mid_pcb, mid_sys))"
  apply (simp add: pppos_input_def pppos_input_byte_def on_flag_def connected_eq sys0_def opts4_def
      mid_pcb_def mid_sys_def
      ESCAPE_P_def ppp_accm_mask_def PPP_FLAG_def PPP_ESCAPE_def PPP_INITFCS_def PPP_GOODFCS_def
      case_PDIDLE_def case_PDSTART_def
      case_PDADDRESS_def case_PDCONTROL_def case_PDPROTOCOL1_def case_PDPROTOCOL2_def
      case_PDDATA_def close_tail_def start_packet_def pbuf_alloc_def store_byte_def
      pbuf_cat_def pbuf_cat_loop.simps Let_def
      PPP_ALLSTATIONS_def PPP_UI_def PPP_FCS_def fcstab_def)
  apply (simp add: fun_eq_iff eval_nat_numeral)
  done

text \<open>
  C2, amended. The buffers of the packet under reception hold the protocol number and
  the bytes \<open>ds\<close> stored in DATA state (\<open>rx_data\<close>: established by the first data byte
  and kept by every further one, lemma \<open>data_step\<close>). When a flag arrives in DATA state
  with the running FCS \<open>0xF0B8\<close>, and at least the two bytes of a checksum were stored,
  the chain handed to \<open>ppp_input\<close> has \<open>tot_len\<close> 2 plus the number of stored bytes
  without the last two, it reads as the protocol number, high byte first, followed by
  those bytes, and \<open>in_head\<close> and \<open>in_tail\<close> are null afterwards. This covers the tail longer
  than 2 and the tail of at most 2 bytes. The lengths fit the 16-bit fields, and a buffer
  holds at least 3 bytes.
\<close>

theorem good_frame_delivery:
  assumes "rx_data opt w (rx pcb) ds" and "2 \<le> length ds"
    and "in_state (rx pcb) = PDDATA" and "in_fcs (rx pcb) = 0xf0b8"
    and "ESCAPE_P (in_accm (rx pcb)) PPP_FLAG \<noteq> 0"
    and "3 \<le> PBUF_POOL_BUFSIZE opt" and "length ds + 2 < 65536"
  shows "\<exists>pcb' w' ps.
           pppos_input opt [PPP_FLAG] pcb w = Some (Inr (pcb', w')) \<and>
           delivered w' = delivered w @ [in_head (rx pcb)] \<and>
           chain (heap w') (in_head (rx pcb)) ps \<and>
           tot_len (heap w' (in_head (rx pcb))) = 2 + (length ds - 2) \<and>
           chain_data (heap w') ps = proto_bytes (in_protocol (rx pcb)) @ take (length ds - 2) ds \<and>
           in_head (rx pcb') = NULL \<and> in_tail (rx pcb') = NULL"
proof -
  from assms(2) have "ds \<noteq> []" by auto
  with assms(1) obtain cs where pkt: "rx_pkt opt w (rx pcb) cs ds"
    by (auto simp add: rx_data_def)
  from pass_on_delivers [OF pkt assms(6,7)] obtain w' ps where
    p: "pass_on (rx pcb) w = Some (Inr ((rx pcb)\<lparr>in_head := NULL, in_tail := NULL\<rparr>, w'))"
    and d: "delivered w' = delivered w @ [in_head (rx pcb)]"
    "chain (heap w') (in_head (rx pcb)) ps"
    "chain_data (heap w') ps = take (length ds) (proto_bytes (in_protocol (rx pcb)) @ ds)"
    "tot_len (heap w' (in_head (rx pcb))) = length ds" by blast
  let ?pcb = "pcb\<lparr>rx := (rx pcb)\<lparr>in_head := NULL, in_tail := NULL, in_fcs := 0xffff,
                                  in_state := PDADDRESS, in_escaped := False\<rparr>\<rparr>"
  have "pppos_input opt [PPP_FLAG] pcb w = Some (Inr (?pcb, w'))"
    using input_flag [OF assms(5), of opt w] on_flag_good [OF assms(3,4) p]
    by (simp add: pppos_input_def)
  moreover have "take (length ds) (proto_bytes (in_protocol (rx pcb)) @ ds)
      = proto_bytes (in_protocol (rx pcb)) @ take (length ds - 2) ds"
    using assms(2) by (simp add: proto_bytes_def take2_Cons)
  moreover have "in_head (rx ?pcb) = NULL" "in_tail (rx ?pcb) = NULL" by simp_all
  ultimately show ?thesis using d assms(2) by (intro exI [of _ ?pcb] exI [of _ w'] exI [of _ ps]) simp
qed

theorem good_frame_delivery_witness:
  "\<exists>pcb' w' ps.
     pppos_input opts4 [PPP_FLAG] mid_pcb mid_sys = Some (Inr (pcb', w')) \<and>
     delivered w' = [1] \<and> chain (heap w') 1 ps \<and> tot_len (heap w' 1) = 7 \<and>
     chain_data (heap w') ps = [0xc0, 0x21, 9, 1, 0, 4, 7] \<and>
     in_head (rx pcb') = NULL \<and> in_tail (rx pcb') = NULL"
proof -
  let ?ds = "[9, 1, 0, 4, 7, 0x56, 0x19] :: u_char list"
  have "rx_pkt opts4 mid_sys (rx mid_pcb) [1, 2] ?ds"
    by (simp add: rx_pkt_def mid_pcb_def mid_sys_def connected_eq sys0_def opts4_def
        chain_data_def pbuf_data_def proto_bytes_def)
  then have 1: "rx_data opts4 mid_sys (rx mid_pcb) ?ds" by (auto simp add: rx_data_def)
  have 2: "2 \<le> length ?ds" "in_state (rx mid_pcb) = PDDATA" "in_fcs (rx mid_pcb) = 0xf0b8"
    "ESCAPE_P (in_accm (rx mid_pcb)) PPP_FLAG \<noteq> 0"
    "3 \<le> PBUF_POOL_BUFSIZE opts4" "length ?ds + 2 < 65536"
    by (simp_all add: mid_pcb_def connected_eq opts4_def ESCAPE_P_def ppp_accm_mask_def PPP_FLAG_def)
  have 3: "in_head (rx mid_pcb) = 1" "delivered mid_sys = []"
    "proto_bytes (in_protocol (rx mid_pcb)) = [0xc0, 0x21]"
    by (simp_all add: mid_pcb_def mid_sys_def sys0_def connected_eq proto_bytes_def)
  from good_frame_delivery [OF 1 2] show ?thesis unfolding 3 by simp
qed

text \<open>
  C2, as stated, fails for a frame too short to hold a checksum. After \<open>pppos_connect\<close>
  the bytes \<open>7E 00 78 F0 7E\<close> give the protocol number \<open>0x0078\<close> and one byte in DATA
  state; the running FCS is \<open>0xF0B8\<close> at the closing flag. The chain handed to
  \<open>ppp_input\<close> has \<open>tot_len\<close> 1, less than the 2 bytes of the protocol number, and reads as
  the single byte \<open>00\<close>.
\<close>

theorem good_frame_delivery_counterexample:
  "pppos_input opts4 [0x7e, 0x00, 0x78, 0xf0, 0x7e] connected sys0 = Some (Inr (runt_pcb, runt_sys))
   \<and> delivered runt_sys = [1] \<and> tot_len (heap runt_sys 1) = 1
   \<and> chain (heap runt_sys) 1 [1] \<and> chain_data (heap runt_sys) [1] = [0]"
  apply (simp add: pppos_input_def pppos_input_byte_def on_flag_def pass_on_def connected_eq sys0_def
      opts4_def runt_pcb_def runt_sys_def ppp_input_def chain_data_def pbuf_data_def
      ESCAPE_P_def ppp_accm_mask_def PPP_FLAG_def PPP_ESCAPE_def PPP_INITFCS_def PPP_GOODFCS_def
      case_PDIDLE_def case_PDSTART_def
      case_PDADDRESS_def case_PDCONTROL_def case_PDPROTOCOL1_def case_PDPROTOCOL2_def
      case_PDDATA_def close_tail_def start_packet_def pbuf_alloc_def store_byte_def Let_def
      PPP_ALLSTATIONS_def PPP_UI_def PPP_FCS_def fcstab_def)
  apply (simp add: fun_eq_iff eval_nat_numeral)
  done

subsection \<open>Reception of escaped characters\<close>










subsection \<open>Reception of the header\<close>



subsection \<open>Reception of the data and of the whole frame\<close>


lemma rx_data_update [simp]:
  "rx_data opt w (pcrx\<lparr>in_fcs := f\<rparr>) ds = rx_data opt w pcrx ds"
  "rx_data opt w (pcrx\<lparr>in_state := st\<rparr>) ds = rx_data opt w pcrx ds"
  "rx_data opt w (pcrx\<lparr>in_escaped := e\<rparr>) ds = rx_data opt w pcrx ds"
  by (simp_all add: rx_data_def rx_pkt_def)


lemma fcs_bytes_length [simp]: "length (fcs_bytes f) = 2"
  by (simp add: fcs_bytes_def)

lemma fcs_bytes_ne [simp]: "fcs_bytes f \<noteq> []"
  by (simp add: fcs_bytes_def)


lemma u_char_enum: "(c::u_char) \<in> set (map of_nat [0..<256])"
proof -
  have "unat c < 256" using unsigned_less [of c] by simp
  then have "of_nat (unat c) \<in> set (map of_nat [0..<256] :: u_char list)"
    unfolding set_map by (intro imageI) simp
  then show ?thesis by simp
qed

lemma connect_accm_marks:
  "ESCAPE_P ((replicate 32 0)[15 := 0x60]) c \<noteq> 0 \<longleftrightarrow> c = 0x7d \<or> c = 0x7e"
proof -
  have "list_all (\<lambda>c. (ESCAPE_P ((replicate 32 0)[15 := 0x60]) c \<noteq> 0) = (c = 0x7d \<or> c = 0x7e))
          (map of_nat [0..<256])"
    by code_simp
  then show ?thesis using u_char_enum [of c] unfolding list_all_iff by blast
qed



subsection \<open>Round trip\<close>

text \<open>The map of \<open>tx5e\<close> is consistent with the receive map that \<open>pppos_connect\<close> sets:
  the receiver marks nothing that this sender leaves as it is.\<close>

lemma tx5e_consistent: "accm_consistent (out_accm tx5e) (in_accm (rx connected))"
proof -
  have "ESCAPE_P ((replicate 32 0)[11 := 0x40, 15 := 0x60]) c \<noteq> 0"
    if "ESCAPE_P ((replicate 32 0)[15 := 0x60]) c \<noteq> 0" for c
  proof -
    from that connect_accm_marks [of c] have "c = 0x7d \<or> c = 0x7e" by blast
    then show ?thesis by (auto simp add: ESCAPE_P_def ppp_accm_mask_def)
  qed
  then have "ESCAPE_P ((replicate 32 0)[11 := 0x40, 15 := 0x60]) c = 0 \<longrightarrow>
             ESCAPE_P ((replicate 32 0)[15 := 0x60]) c = 0" for c by blast
  moreover have "ESCAPE_P ((replicate 32 0)[15 := 0x60]) 0x7d \<noteq> 0"
    "ESCAPE_P ((replicate 32 0)[15 := 0x60]) 0x7e \<noteq> 0"
    using connect_accm_marks by blast+
  ultimately show ?thesis
    by (simp add: accm_consistent_def tx5e_def connected_eq PPP_ESCAPE_def PPP_FLAG_def)
qed




end
